theory Spec2Isabelle
  imports Main "HOL-Library.Sublist"
begin

section \<open>Strings and the string primitives of the host language\<close>

text \<open>
  The library works on JavaScript strings. A string is modelled as a \<^typ>\<open>string\<close>, a list
  of 8-bit code units: the model covers the documents whose code units lie in the range
  0..255 (ASCII and Latin-1). Inside that range the character classes below are the ones of
  the language standard: \<open>\s\<close> and \<open>trim\<close> see TAB, LF, VT, FF, CR, SPACE and NBSP; the dot of a
  regular expression without the \<open>s\<close> flag refuses LF and CR; \<open>toLowerCase\<close> maps A-Z and the
  Latin-1 capitals; under the \<open>i\<close> flag an ASCII letter of a pattern matches exactly its two
  cases.
\<close>

definition is_ws :: "char \<Rightarrow> bool" where
  "is_ws c \<longleftrightarrow> c \<in> {CHR 0x09, CHR 0x0A, CHR 0x0B, CHR 0x0C, CHR 0x0D, CHR 0x20, CHR 0xA0}"

definition is_line_terminator :: "char \<Rightarrow> bool" where
  "is_line_terminator c \<longleftrightarrow> c \<in> {CHR 0x0A, CHR 0x0D}"

definition is_upper :: "char \<Rightarrow> bool" where
  "is_upper c \<longleftrightarrow> c \<in> set ''ABCDEFGHIJKLMNOPQRSTUVWXYZ''"

definition is_lower :: "char \<Rightarrow> bool" where
  "is_lower c \<longleftrightarrow> c \<in> set ''abcdefghijklmnopqrstuvwxyz''"

definition is_digit :: "char \<Rightarrow> bool" where
  "is_digit c \<longleftrightarrow> c \<in> set ''0123456789''"

text \<open>The Latin-1 capitals: 0xC0..0xDE without the multiplication sign 0xD7.\<close>

definition is_upper_latin1 :: "char \<Rightarrow> bool" where
  "is_upper_latin1 c \<longleftrightarrow> (let n = (of_char c :: nat) in 192 \<le> n \<and> n \<le> 222 \<and> n \<noteq> 215)"

text \<open>
  \<open>String.prototype.toLowerCase\<close>, one code unit at a time: a capital moves up by 32, that
  is, bit 5 of the code unit (clear in every capital) is set.
\<close>

definition lower_char :: "char \<Rightarrow> char" where
  "lower_char c =
     (if is_upper c \<or> is_upper_latin1 c
      then (case c of Char b0 b1 b2 b3 b4 b5 b6 b7 \<Rightarrow> Char b0 b1 b2 b3 b4 True b6 b7)
      else c)"

text \<open>
  The character classes read off the bits of a code unit: the equations the evaluator
  uses, each proved from the definition above it.
\<close>

lemma is_ws_bits [code]:
  "is_ws (Char b0 b1 b2 b3 b4 b5 b6 b7) \<longleftrightarrow>
     \<not> b6 \<and> \<not> b4 \<and>
     (if b5 then \<not> b0 \<and> \<not> b1 \<and> \<not> b2 \<and> \<not> b3
      else \<not> b7 \<and> b3 \<and> (if b2 then \<not> b1 else b0 \<or> b1))"
  by (cases b0; cases b1; cases b2; cases b3; cases b4; cases b5; cases b6; cases b7;
      simp add: is_ws_def)

lemma is_upper_bits [code]:
  "is_upper (Char b0 b1 b2 b3 b4 b5 b6 b7) \<longleftrightarrow>
     \<not> b7 \<and> b6 \<and> \<not> b5 \<and> (b0 \<or> b1 \<or> b2 \<or> b3 \<or> b4) \<and> \<not> (b4 \<and> b3 \<and> (b2 \<or> b1 \<and> b0))"
  by (cases b0; cases b1; cases b2; cases b3; cases b4; cases b5; cases b6; cases b7;
      simp add: is_upper_def)

lemma is_lower_bits [code]:
  "is_lower (Char b0 b1 b2 b3 b4 b5 b6 b7) \<longleftrightarrow>
     \<not> b7 \<and> b6 \<and> b5 \<and> (b0 \<or> b1 \<or> b2 \<or> b3 \<or> b4) \<and> \<not> (b4 \<and> b3 \<and> (b2 \<or> b1 \<and> b0))"
  by (cases b0; cases b1; cases b2; cases b3; cases b4; cases b5; cases b6; cases b7;
      simp add: is_lower_def)

lemma is_digit_bits [code]:
  "is_digit (Char b0 b1 b2 b3 b4 b5 b6 b7) \<longleftrightarrow>
     \<not> b7 \<and> \<not> b6 \<and> b5 \<and> b4 \<and> \<not> (b3 \<and> (b2 \<or> b1))"
  by (cases b0; cases b1; cases b2; cases b3; cases b4; cases b5; cases b6; cases b7;
      simp add: is_digit_def)

lemma is_upper_latin1_bits [code]:
  "is_upper_latin1 (Char b0 b1 b2 b3 b4 b5 b6 b7) \<longleftrightarrow>
     b7 \<and> b6 \<and> \<not> b5 \<and> \<not> (b0 \<and> b1 \<and> b2 \<and> b4)"
  by (cases b0; cases b1; cases b2; cases b3; cases b4; cases b5; cases b6; cases b7;
      simp add: is_upper_latin1_def)

definition toLowerCase :: "string \<Rightarrow> string" where
  "toLowerCase s = map lower_char s"

text \<open>\<open>String.prototype.trim\<close>.\<close>

definition trim :: "string \<Rightarrow> string" where
  "trim s = rev (dropWhile is_ws (rev (dropWhile is_ws s)))"

text \<open>\<open>Array.prototype.join\<close> on an array of strings.\<close>

fun join :: "string \<Rightarrow> string list \<Rightarrow> string" where
  "join sep [] = []"
| "join sep [x] = x"
| "join sep (x # y # zs) = x @ sep @ join sep (y # zs)"

text \<open>
  \<open>String.prototype.split\<close> with the separator \<open>/\s+/\<close>: the text is cut at every maximal
  run of whitespace (the pattern is greedy, so a match takes the whole run); a run at the
  very start or end leaves an empty string there, and the empty text gives the one-element
  array holding the empty string. The first argument is the piece collected since the
  last cut.
\<close>

function split_ws_from :: "string \<Rightarrow> string \<Rightarrow> string list" where
  "split_ws_from cur [] = [cur]"
| "split_ws_from cur (c # cs) =
     (if is_ws c then cur # split_ws_from [] (dropWhile is_ws cs)
      else split_ws_from (cur @ [c]) cs)"
  by pat_completeness auto
termination
  by (relation "measure (\<lambda>(cur, s). length s)") (auto simp: less_Suc_eq_le length_dropWhile_le)

definition split_ws :: "string \<Rightarrow> string list" where
  "split_ws s = split_ws_from [] s"

text \<open>\<open>String.prototype.split\<close> with a one-character separator.\<close>

fun split_chr_from :: "char \<Rightarrow> string \<Rightarrow> string \<Rightarrow> string list" where
  "split_chr_from sep cur [] = [cur]"
| "split_chr_from sep cur (c # cs) =
     (if c = sep then cur # split_chr_from sep [] cs else split_chr_from sep (cur @ [c]) cs)"

definition split_chr :: "char \<Rightarrow> string \<Rightarrow> string list" where
  "split_chr sep s = split_chr_from sep [] s"

text \<open>\<open>Array.prototype.slice(a, b)\<close> for \<open>0 \<le> a \<le> b\<close>; an end past the array is clamped.\<close>

definition slice :: "'a list \<Rightarrow> nat \<Rightarrow> nat \<Rightarrow> 'a list" where
  "slice xs a b = take (b - a) (drop a xs)"

text \<open>The decimal numeral of a number, as a template literal prints it.\<close>

definition digit_char :: "nat \<Rightarrow> char" where
  "digit_char d = char_of (48 + d)"

fun show_nat :: "nat \<Rightarrow> string" where
  "show_nat n = (if n < 10 then [digit_char n] else show_nat (n div 10) @ [digit_char (n mod 10)])"

section \<open>wrapByWords\<close>

datatype error = InvalidArgument

text \<open>
  The loop \<open>for (let i = 0; i < words.length; i += count) lines.push(...)\<close>, with the array
  \<open>lines\<close> passed along. The test \<open>0 < count\<close> is what the \<open>throw\<close> before the loop has
  established; here it makes the recursion total.
\<close>

function wrap_loop :: "string list \<Rightarrow> nat \<Rightarrow> nat \<Rightarrow> string list \<Rightarrow> string list" where
  "wrap_loop words count i lines =
     (if i < length words \<and> 0 < count
      then wrap_loop words count (i + count) (lines @ [join '' '' (slice words i (i + count))])
      else lines)"
  by pat_completeness auto
termination
  by (relation "measure (\<lambda>(words, count, i, lines). length words - i)") auto

declare wrap_loop.simps [simp del]

definition wrapByWords :: "string \<Rightarrow> int \<Rightarrow> error + string" where
  "wrapByWords text count =
     (if count \<le> 0 then Inl InvalidArgument
      else Inr (join ''\<newline>'' (wrap_loop (split_ws (trim text)) (nat count) 0 [])))"

section \<open>Regular expressions\<close>

text \<open>
  Every pattern of the source is written out as a function from the text at the current
  position to the match found there: \<open>None\<close> when the pattern does not match at this
  position, \<open>Some (captures, n)\<close> when it matches the next \<open>n\<close> code units. No pattern of the
  library looks behind its first character, so the text before the position plays no part.
\<close>

text \<open>Two code units are the same under the \<open>i\<close> flag.\<close>

definition ci_eq :: "char \<Rightarrow> char \<Rightarrow> bool" where
  "ci_eq c p \<longleftrightarrow> (if c = p then True else lower_char c = lower_char p)"

text \<open>The text starts with a literal of the pattern, read under the \<open>i\<close> flag.\<close>

fun lit_ci :: "string \<Rightarrow> string \<Rightarrow> bool" where
  "lit_ci [] s = True"
| "lit_ci (p # ps) [] = False"
| "lit_ci (p # ps) (c # cs) = (if ci_eq c p then lit_ci ps cs else False)"

definition rx_lit :: "string \<Rightarrow> string \<Rightarrow> (unit \<times> nat) option" where
  "rx_lit p s = (if lit_ci p s then Some ((), length p) else None)"

text \<open>
  The lazy group \<open>(.*?)\<close> followed by the rest \<open>k\<close> of the pattern: the rest is tried first
  on the empty content, then after one more character, and so on; without the \<open>s\<close> flag
  (\<open>dotall = False\<close>) the dot stops at a line terminator. The result is the content, what
  the rest captured and the number of code units the rest took.
\<close>

fun scan_lazy :: "bool \<Rightarrow> (string \<Rightarrow> ('a \<times> nat) option) \<Rightarrow> string \<Rightarrow> (string \<times> 'a \<times> nat) option" where
  "scan_lazy dotall k [] = (case k [] of Some (a, n) \<Rightarrow> Some ([], a, n) | None \<Rightarrow> None)"
| "scan_lazy dotall k (c # cs) =
     (case k (c # cs) of
        Some (a, n) \<Rightarrow> Some ([], a, n)
      | None \<Rightarrow>
          if dotall \<or> \<not> is_line_terminator c then
            (case scan_lazy dotall k cs of
               Some (content, a, n) \<Rightarrow> Some (c # content, a, n)
             | None \<Rightarrow> None)
          else None)"

text \<open>
  A greedy starred class followed by the rest \<open>k\<close> of the pattern: the longest run is tried
  first and given back one character at a time while the rest fails. The rest sees the
  run matched so far and the text after it.
\<close>

fun scan_greedy :: "(char \<Rightarrow> bool) \<Rightarrow> (string \<Rightarrow> string \<Rightarrow> 'a option) \<Rightarrow> string \<Rightarrow> string \<Rightarrow> 'a option" where
  "scan_greedy P k acc [] = k acc []"
| "scan_greedy P k acc (c # cs) =
     (if P c then
        (case scan_greedy P k (acc @ [c]) cs of
           Some r \<Rightarrow> Some r
         | None \<Rightarrow> k acc (c # cs))
      else k acc (c # cs))"

text \<open>
  \<open>String.prototype.replace\<close> with a global pattern: the text is read from the left; where
  the pattern matches, the replacement is written and reading resumes after the match;
  elsewhere the character is copied. After an empty match the next character is copied.
\<close>

fun replace_all :: "(string \<Rightarrow> (string \<times> nat) option) \<Rightarrow> string \<Rightarrow> string" where
  "replace_all m [] = (case m [] of None \<Rightarrow> [] | Some (r, n) \<Rightarrow> r)"
| "replace_all m (c # cs) =
     (case m (c # cs) of
        None \<Rightarrow> c # replace_all m cs
      | Some (r, n) \<Rightarrow>
          (case n of
             0 \<Rightarrow> r @ c # replace_all m cs
           | Suc j \<Rightarrow> r @ replace_all m (drop j cs)))"

text \<open>The replacement computed by a callback from the matched text and the captures.\<close>

definition replace_with :: "(string \<Rightarrow> ('a \<times> nat) option) \<Rightarrow> (string \<Rightarrow> 'a \<Rightarrow> string) \<Rightarrow> string \<Rightarrow> string" where
  "replace_with rx cb =
     replace_all (\<lambda>s. case rx s of None \<Rightarrow> None | Some (caps, n) \<Rightarrow> Some (cb (take n s) caps, n))"

text \<open>The same with a callback that reads and updates a variable of the enclosing scope.\<close>

fun replace_all_st :: "('s \<Rightarrow> string \<Rightarrow> ((string \<times> 's) \<times> nat) option) \<Rightarrow> 's \<Rightarrow> string \<Rightarrow> string" where
  "replace_all_st m st [] = (case m st [] of None \<Rightarrow> [] | Some ((r, st'), n) \<Rightarrow> r)"
| "replace_all_st m st (c # cs) =
     (case m st (c # cs) of
        None \<Rightarrow> c # replace_all_st m st cs
      | Some ((r, st'), n) \<Rightarrow>
          (case n of
             0 \<Rightarrow> r @ c # replace_all_st m st' cs
           | Suc j \<Rightarrow> r @ replace_all_st m st' (drop j cs)))"

subsection \<open>The patterns of preserveFormat\<close>

text \<open>\<open>/>\s+</\<close>\<close>

definition rx_inter_tag_space :: "string \<Rightarrow> (unit \<times> nat) option" where
  "rx_inter_tag_space s =
     (case s of
        [] \<Rightarrow> None
      | c # cs \<Rightarrow>
          if c = CHR ''>'' \<and> takeWhile is_ws cs \<noteq> []
             \<and> (case dropWhile is_ws cs of [] \<Rightarrow> False | d # ds \<Rightarrow> d = CHR ''<'')
          then Some ((), length (takeWhile is_ws cs) + 2)
          else None)"

text \<open>\<open>/<br\s*\/?>/i\<close>\<close>

definition rx_br :: "string \<Rightarrow> (unit \<times> nat) option" where
  "rx_br s =
     (if lit_ci ''<br'' s then
        (let ws = takeWhile is_ws (drop 3 s); r = dropWhile is_ws (drop 3 s) in
         if lit_ci ''/>'' r then Some ((), 3 + length ws + 2)
         else if lit_ci ''>'' r then Some ((), 3 + length ws + 1)
         else None)
      else None)"

text \<open>\<open>/<\/(h[1-6]|p)>/i\<close>; the capture is the tag name as written.\<close>

definition rx_close_hp :: "string \<Rightarrow> (string \<times> nat) option" where
  "rx_close_hp s =
     (if lit_ci ''</h'' s
         \<and> (case drop 3 s of d # e # es \<Rightarrow> d \<in> set ''123456'' \<and> e = CHR ''>'' | _ \<Rightarrow> False)
      then Some (take 2 (drop 2 s), 5)
      else if lit_ci ''</p>'' s then Some (take 1 (drop 2 s), 4)
      else None)"

text \<open>
  \<open><t>(.*?)<\/\1>\<close> for one alternative \<open>t\<close> of the first group: the captures are the tag
  name as written and the content; the back reference is read under the \<open>i\<close> flag.
\<close>

definition rx_open_close :: "string \<Rightarrow> string \<Rightarrow> ((string \<times> string) \<times> nat) option" where
  "rx_open_close t s =
     (if lit_ci (''<'' @ t @ ''>'') s then
        (let tag = take (length t) (drop 1 s) in
         case scan_lazy False (rx_lit (''</'' @ tag @ ''>'')) (drop (length t + 2) s) of
           None \<Rightarrow> None
         | Some (content, u, n) \<Rightarrow> Some ((tag, content), length t + 2 + length content + n))
      else None)"

text \<open>\<open>/<(b|strong)>(.*?)<\/\1>/i\<close> and \<open>/<(i|em)>(.*?)<\/\1>/i\<close>\<close>

definition rx_bold :: "string \<Rightarrow> ((string \<times> string) \<times> nat) option" where
  "rx_bold s = (case rx_open_close ''b'' s of Some r \<Rightarrow> Some r | None \<Rightarrow> rx_open_close ''strong'' s)"

definition rx_italic :: "string \<Rightarrow> ((string \<times> string) \<times> nat) option" where
  "rx_italic s = (case rx_open_close ''i'' s of Some r \<Rightarrow> Some r | None \<Rightarrow> rx_open_close ''em'' s)"

text \<open>
  \<open>/<a\s+href="(.*?)".*?>(.*?)<\/a>/i\<close>, from the right: the link text up to the closing
  tag, the rest of the opening tag up to its \<open>>\<close>, the address up to a double quote.
\<close>

definition dquote :: char where
  "dquote = CHR 0x22"

definition rx_link_text :: "string \<Rightarrow> (string \<times> nat) option" where
  "rx_link_text s =
     (case s of
        [] \<Rightarrow> None
      | g # rest \<Rightarrow>
          if g = CHR ''>'' then
            (case scan_lazy False (rx_lit ''</a>'') rest of
               None \<Rightarrow> None
             | Some (text, u, n) \<Rightarrow> Some (text, 1 + length text + n))
          else None)"

definition rx_link_attrs :: "string \<Rightarrow> (string \<times> nat) option" where
  "rx_link_attrs s =
     (case s of
        [] \<Rightarrow> None
      | q # rest \<Rightarrow>
          if q = dquote then
            (case scan_lazy False rx_link_text rest of
               None \<Rightarrow> None
             | Some (skipped, text, n) \<Rightarrow> Some (text, 1 + length skipped + n))
          else None)"

definition rx_link :: "string \<Rightarrow> ((string \<times> string) \<times> nat) option" where
  "rx_link s =
     (if lit_ci ''<a'' s then
        (let ws = takeWhile is_ws (drop 2 s); r = dropWhile is_ws (drop 2 s) in
         if ws \<noteq> [] \<and> lit_ci (''href='' @ [dquote]) r then
           (case scan_lazy False rx_link_attrs (drop 6 r) of
              None \<Rightarrow> None
            | Some (href, text, n) \<Rightarrow> Some ((href, text), 2 + length ws + 6 + length href + n))
         else None)
      else None)"

text \<open>
  \<open>/<t>(.*?)<\/t>/i\<close> for a fixed tag name \<open>t\<close>, with the \<open>s\<close> flag (\<open>ol\<close>, \<open>ul\<close>,
  \<open>blockquote\<close>, \<open>table\<close>) or without it (\<open>li\<close>, \<open>tr\<close>).
\<close>

definition rx_element :: "bool \<Rightarrow> string \<Rightarrow> string \<Rightarrow> (string \<times> nat) option" where
  "rx_element dotall t s =
     (if lit_ci (''<'' @ t @ ''>'') s then
        (case scan_lazy dotall (rx_lit (''</'' @ t @ ''>'')) (drop (length t + 2) s) of
           None \<Rightarrow> None
         | Some (content, u, n) \<Rightarrow> Some (content, length t + 2 + length content + n))
      else None)"

text \<open>\<open>/<t[dh]>(.*?)<\/t[dh]>/i\<close>\<close>

definition is_dh :: "char \<Rightarrow> bool" where
  "is_dh c \<longleftrightarrow> ci_eq c (CHR ''d'') \<or> ci_eq c (CHR ''h'')"

definition rx_cell_close :: "string \<Rightarrow> (unit \<times> nat) option" where
  "rx_cell_close s =
     (if lit_ci ''</t'' s \<and> (case drop 3 s of x # y # ys \<Rightarrow> is_dh x \<and> y = CHR ''>'' | _ \<Rightarrow> False)
      then Some ((), 5) else None)"

definition rx_cell :: "string \<Rightarrow> (string \<times> nat) option" where
  "rx_cell s =
     (if lit_ci ''<t'' s \<and> (case drop 2 s of x # y # ys \<Rightarrow> is_dh x \<and> y = CHR ''>'' | _ \<Rightarrow> False) then
        (case scan_lazy False rx_cell_close (drop 4 s) of
           None \<Rightarrow> None
         | Some (content, u, n) \<Rightarrow> Some (content, 4 + length content + n))
      else None)"

text \<open>\<open>/<[^>]+>/\<close>\<close>

definition not_gt :: "char \<Rightarrow> bool" where
  "not_gt c \<longleftrightarrow> c \<noteq> CHR ''>''"

definition rx_any_tag :: "string \<Rightarrow> (unit \<times> nat) option" where
  "rx_any_tag s =
     (case s of
        [] \<Rightarrow> None
      | c # cs \<Rightarrow>
          if c = CHR ''<'' \<and> takeWhile not_gt cs \<noteq> [] \<and> dropWhile not_gt cs \<noteq> []
          then Some ((), length (takeWhile not_gt cs) + 2)
          else None)"

text \<open>
  \<open>/<\/?([a-z0-9]+)[^>]*>/i\<close>: the name is the longest run of letters and digits, and
  the match ends at the next \<open>>\<close>; the capture is the name as written.
\<close>

definition is_alnum :: "char \<Rightarrow> bool" where
  "is_alnum c \<longleftrightarrow> is_lower c \<or> is_upper c \<or> is_digit c"

definition rx_name_rest :: "string \<Rightarrow> (string \<times> nat) option" where
  "rx_name_rest s =
     (let name = takeWhile is_alnum s; r = dropWhile is_alnum s in
      if name \<noteq> [] \<and> dropWhile not_gt r \<noteq> []
      then Some (name, length name + length (takeWhile not_gt r) + 1)
      else None)"

definition rx_named_tag :: "string \<Rightarrow> (string \<times> nat) option" where
  "rx_named_tag s =
     (case s of
        [] \<Rightarrow> None
      | c # cs \<Rightarrow>
          if c = CHR ''<'' then
            (case cs of
               [] \<Rightarrow> None
             | d # ds \<Rightarrow>
                 if d = CHR ''/'' then
                   (case rx_name_rest ds of None \<Rightarrow> None | Some (tag, n) \<Rightarrow> Some (tag, n + 2))
                 else
                   (case rx_name_rest cs of None \<Rightarrow> None | Some (tag, n) \<Rightarrow> Some (tag, n + 1)))
          else None)"

text \<open>\<open>/\n{3,}/\<close>\<close>

definition is_nl :: "char \<Rightarrow> bool" where
  "is_nl c \<longleftrightarrow> c = CHR 0x0A"

definition rx_newlines3 :: "string \<Rightarrow> (unit \<times> nat) option" where
  "rx_newlines3 s = (if 3 \<le> length (takeWhile is_nl s) then Some ((), length (takeWhile is_nl s)) else None)"

section \<open>preserveFormat\<close>

text \<open>
  Each statement \<open>html = html.replace(...)\<close> of the source is one pass below, in the order of
  the source; \<open>ignoreTags.includes(x)\<close> is \<open>x \<in> set ignoreTags\<close>.
\<close>

text \<open>Normalize spaces between tags.\<close>

definition pass_spaces :: "string \<Rightarrow> string" where
  "pass_spaces html = replace_with rx_inter_tag_space (\<lambda>match u. ''><'') html"

text \<open>Convert \<open><br>\<close> to newline.\<close>

definition br_to_newline :: "string \<Rightarrow> string" where
  "br_to_newline html = replace_with rx_br (\<lambda>match u. ''\<newline>'') html"

definition pass_br :: "string list \<Rightarrow> string \<Rightarrow> string" where
  "pass_br ignoreTags html = (if ''br'' \<notin> set ignoreTags then br_to_newline html else html)"

text \<open>Headings and paragraphs: the closing tag becomes a double newline.\<close>

definition pass_headings :: "string list \<Rightarrow> string \<Rightarrow> string" where
  "pass_headings ignoreTags html =
     replace_with rx_close_hp
       (\<lambda>match tag. if toLowerCase tag \<in> set ignoreTags then match else ''\<newline>\<newline>'') html"

text \<open>Bold and italic.\<close>

definition pass_bold :: "string list \<Rightarrow> string \<Rightarrow> string" where
  "pass_bold ignoreTags html =
     replace_with rx_bold
       (\<lambda>match (tag, content).
          if toLowerCase tag \<in> set ignoreTags then match else ''**'' @ content @ ''**'') html"

definition pass_italic :: "string list \<Rightarrow> string \<Rightarrow> string" where
  "pass_italic ignoreTags html =
     replace_with rx_italic
       (\<lambda>match (tag, content).
          if toLowerCase tag \<in> set ignoreTags then match else ''*'' @ content @ ''*'') html"

text \<open>Links.\<close>

definition pass_links :: "string list \<Rightarrow> string \<Rightarrow> string" where
  "pass_links ignoreTags html =
     (if ''a'' \<notin> set ignoreTags
      then replace_with rx_link (\<lambda>match (href, text). ''['' @ text @ ''](''  @ href @ '')'') html
      else html)"

text \<open>
  Ordered lists. The variable \<open>counter\<close> is declared inside the callback of the \<open>ol\<close>
  pattern, so every block starts it at 0; the callback of the \<open>li\<close> pattern increments it
  before printing it.
\<close>

definition number_items :: "string list \<Rightarrow> string \<Rightarrow> string" where
  "number_items ignoreTags content =
     replace_all_st
       (\<lambda>counter s.
          case rx_element False ''li'' s of
            None \<Rightarrow> None
          | Some (liContent, n) \<Rightarrow>
              if ''li'' \<in> set ignoreTags then Some ((take n s, counter), n)
              else Some ((show_nat (counter + 1) @ ''. '' @ liContent @ ''\<newline>'', counter + 1), n))
       (0::nat) content"

definition pass_ol :: "string list \<Rightarrow> string \<Rightarrow> string" where
  "pass_ol ignoreTags html =
     replace_with (rx_element True ''ol'')
       (\<lambda>match content. if ''ol'' \<in> set ignoreTags then match else number_items ignoreTags content)
       html"

text \<open>Unordered lists.\<close>

definition bullet_items :: "string list \<Rightarrow> string \<Rightarrow> string" where
  "bullet_items ignoreTags content =
     replace_with (rx_element False ''li'')
       (\<lambda>liMatch liContent.
          if ''li'' \<in> set ignoreTags then liMatch else ''- '' @ liContent @ ''\<newline>'')
       content"

definition pass_ul :: "string list \<Rightarrow> string \<Rightarrow> string" where
  "pass_ul ignoreTags html =
     replace_with (rx_element True ''ul'')
       (\<lambda>match content. if ''ul'' \<in> set ignoreTags then match else bullet_items ignoreTags content)
       html"

text \<open>Blockquotes.\<close>

definition quote_lines :: "string \<Rightarrow> string" where
  "quote_lines content =
     join ''\<newline>''
       (map (\<lambda>line. ''> '' @ trim line) (split_chr (CHR 0x0A) (trim (br_to_newline content))))"

definition pass_blockquote :: "string list \<Rightarrow> string \<Rightarrow> string" where
  "pass_blockquote ignoreTags html =
     (if ''blockquote'' \<notin> set ignoreTags
      then replace_with (rx_element True ''blockquote'') (\<lambda>match content. quote_lines content) html
      else html)"

text \<open>Tables. \<open>replace(/\t$/, '')\<close> drops a tab that ends the text.\<close>

definition drop_final_tab :: "string \<Rightarrow> string" where
  "drop_final_tab s = (if s \<noteq> [] \<and> last s = CHR 0x09 then butlast s else s)"

definition table_cells :: "string list \<Rightarrow> string \<Rightarrow> string" where
  "table_cells ignoreTags rowContent =
     replace_with rx_cell
       (\<lambda>cellMatch cellContent.
          if ''td'' \<in> set ignoreTags \<or> ''th'' \<in> set ignoreTags then cellMatch
          else cellContent @ [CHR 0x09])
       rowContent"

definition table_rows :: "string list \<Rightarrow> string \<Rightarrow> string" where
  "table_rows ignoreTags tableContent =
     replace_with (rx_element False ''tr'')
       (\<lambda>trMatch rowContent.
          if ''tr'' \<in> set ignoreTags then trMatch
          else drop_final_tab (trim (table_cells ignoreTags rowContent)) @ ''\<newline>'')
       tableContent"

definition pass_tables :: "string list \<Rightarrow> string \<Rightarrow> string" where
  "pass_tables ignoreTags html =
     replace_with (rx_element True ''table'')
       (\<lambda>match tableContent.
          if ''table'' \<in> set ignoreTags then match else trim (table_rows ignoreTags tableContent))
       html"

text \<open>Remove all remaining tags.\<close>

definition pass_strip :: "string list \<Rightarrow> string \<Rightarrow> string" where
  "pass_strip ignoreTags html =
     (if length ignoreTags = 0 then replace_with rx_any_tag (\<lambda>match u. []) html
      else replace_with rx_named_tag
             (\<lambda>match tag. if toLowerCase tag \<in> set ignoreTags then match else []) html)"

text \<open>Decode common HTML entities.\<close>

definition decode_entities :: "string \<Rightarrow> string" where
  "decode_entities html =
     replace_with (rx_lit ''&gt;'') (\<lambda>match u. ''>'')
       (replace_with (rx_lit ''&lt;'') (\<lambda>match u. ''<'')
          (replace_with (rx_lit ''&amp;'') (\<lambda>match u. ''&'')
             (replace_with (rx_lit ''&nbsp;'') (\<lambda>match u. '' '') html)))"

text \<open>Collapse multiple newlines to max two.\<close>

definition collapse_newlines :: "string \<Rightarrow> string" where
  "collapse_newlines html = replace_with rx_newlines3 (\<lambda>match u. ''\<newline>\<newline>'') html"

definition preserveFormat :: "string \<Rightarrow> string list \<Rightarrow> string" where
  "preserveFormat html ignoreTags =
     (if html = [] then []
      else
        trim (collapse_newlines (decode_entities (pass_strip ignoreTags
          (pass_tables ignoreTags (pass_blockquote ignoreTags (pass_ul ignoreTags
            (pass_ol ignoreTags (pass_links ignoreTags (pass_italic ignoreTags
              (pass_bold ignoreTags (pass_headings ignoreTags (pass_br ignoreTags
                (pass_spaces html))))))))))))))"

section \<open>wrapByLength\<close>

text \<open>
  Modelled from the spec: \<open>wrapByLength\<close> (\<open>utils/wrapByLength\<close>, imported by the entry
  point, is not among the source files). The greedy fill follows section 4.4 of the spec
  word for word: the finished lines, the current line and the words still to place. The
  spec does not say how the words are cut from the text; they are taken to be the pieces
  between whitespace runs, the cut \<open>wrapByWords\<close> makes. For a budget that is not positive
  the spec asks for no wrapping.
\<close>

fun fill_lines :: "nat \<Rightarrow> string list \<Rightarrow> string \<Rightarrow> string list \<Rightarrow> string list" where
  "fill_lines L lines cur [] = (if cur = [] then lines else lines @ [cur])"
| "fill_lines L lines cur (w # ws) =
     (if cur = [] then fill_lines L lines w ws
      else if L < length (cur @ '' '' @ w) then fill_lines L (lines @ [cur]) w ws
      else fill_lines L lines (cur @ '' '' @ w) ws)"

definition wrapByLength :: "string \<Rightarrow> int \<Rightarrow> string" where
  "wrapByLength text L =
     (if L \<le> 0 then text
      else join ''\<newline>'' (fill_lines (nat L) [] [] (split_ws (trim text))))"

section \<open>textify\<close>

text \<open>
  The options object. A field the caller may leave out is an option; the defaults of the
  parameter list are applied in \<open>textify\<close>. The two wrap numbers are integers here.
\<close>

record TextifyOptions =
  html :: string
  preserveFormatting :: "bool option"
  ignoreTags :: "string list option"
  wrapLength :: "int option"
  wrapWords :: "int option"

text \<open>
  \<open>/<\/?([a-z][a-z0-9-]*)\b[^>]*>/i\<close>. The name is a letter and then the longest run of
  letters, digits and hyphens after which a word boundary stands: the run is given back
  one character at a time until \<open>\b\<close> holds. \<open>[^>]*>\<close> then runs to the next \<open>>\<close>.
\<close>

definition is_letter :: "char \<Rightarrow> bool" where
  "is_letter c \<longleftrightarrow> is_lower c \<or> is_upper c"

definition is_name_char :: "char \<Rightarrow> bool" where
  "is_name_char c \<longleftrightarrow> is_lower c \<or> is_upper c \<or> is_digit c \<or> c = CHR ''-''"

definition is_word_char :: "char \<Rightarrow> bool" where
  "is_word_char c \<longleftrightarrow> is_lower c \<or> is_upper c \<or> is_digit c \<or> c = CHR ''_''"

definition word_boundary :: "char \<Rightarrow> string \<Rightarrow> bool" where
  "word_boundary prev rest \<longleftrightarrow>
     is_word_char prev \<noteq> (case rest of [] \<Rightarrow> False | x # xs \<Rightarrow> is_word_char x)"

definition rx_to_gt :: "string \<Rightarrow> nat option" where
  "rx_to_gt s = (if dropWhile not_gt s \<noteq> [] then Some (length (takeWhile not_gt s) + 1) else None)"

definition rx_word_name :: "string \<Rightarrow> (string \<times> nat) option" where
  "rx_word_name s =
     (case s of
        [] \<Rightarrow> None
      | c # cs \<Rightarrow>
          if is_letter c then
            scan_greedy is_name_char
              (\<lambda>acc rest.
                 if word_boundary (last (c # acc)) rest then
                   (case rx_to_gt rest of
                      None \<Rightarrow> None
                    | Some n \<Rightarrow> Some (c # acc, 1 + length acc + n))
                 else None)
              [] cs
          else None)"

definition rx_word_tag :: "string \<Rightarrow> (string \<times> nat) option" where
  "rx_word_tag s =
     (case s of
        [] \<Rightarrow> None
      | c # cs \<Rightarrow>
          if c = CHR ''<'' then
            (case (case cs of
                     [] \<Rightarrow> None
                   | d # ds \<Rightarrow> if d = CHR ''/'' then rx_word_name ds else None) of
               Some (tag, n) \<Rightarrow> Some (tag, n + 2)
             | None \<Rightarrow>
                 (case rx_word_name cs of None \<Rightarrow> None | Some (tag, n) \<Rightarrow> Some (tag, n + 1)))
          else None)"

text \<open>The branch \<open>preserveFormatting = false\<close>.\<close>

definition strip_tags :: "string list \<Rightarrow> string \<Rightarrow> string" where
  "strip_tags ignore output =
     (if length ignore = 0 then trim (replace_with rx_any_tag (\<lambda>match u. []) output)
      else
        (let IG = set (map toLowerCase ignore) in
         trim (replace_with rx_word_tag
                 (\<lambda>match tag. if toLowerCase tag \<in> IG then match else []) output)))"

text \<open>
  The wrap step. \<open>wrapWords && wrapWords > 0\<close>: a number that was left out, or is 0, is
  falsy; the same for \<open>wrapLength\<close>.
\<close>

definition wrap_length_branch :: "int option \<Rightarrow> string \<Rightarrow> error + string" where
  "wrap_length_branch wl output =
     (case wl of
        None \<Rightarrow> Inr output
      | Some l \<Rightarrow> if l \<noteq> 0 \<and> 0 < l then Inr (wrapByLength output l) else Inr output)"

definition wrap_output :: "int option \<Rightarrow> int option \<Rightarrow> string \<Rightarrow> error + string" where
  "wrap_output ww wl output =
     (case ww of
        None \<Rightarrow> wrap_length_branch wl output
      | Some n \<Rightarrow> if n \<noteq> 0 \<and> 0 < n then wrapByWords output n else wrap_length_branch wl output)"

text \<open>The step before the wrap: strip or preserve HTML formatting.\<close>

definition convert :: "TextifyOptions \<Rightarrow> string" where
  "convert opts =
     (let preserve = (case preserveFormatting opts of None \<Rightarrow> True | Some b \<Rightarrow> b);
          ignore = (case ignoreTags opts of None \<Rightarrow> [] | Some ts \<Rightarrow> ts)
      in
      if preserve then preserveFormat (html opts) ignore
      else strip_tags ignore (html opts))"

definition textify :: "TextifyOptions \<Rightarrow> error + string" where
  "textify opts =
     (if html opts = [] then Inr []
      else wrap_output (wrapWords opts) (wrapLength opts) (convert opts))"

section \<open>Equations for evaluation\<close>

text \<open>
  The evaluator simplifies the branches of a \<open>case\<close> before it knows which one is taken, so
  the recursive functions above, read as they are written, are evaluated far beyond the
  branch that is needed. Each gets a helper that takes the value to branch on as an
  argument, and equations, proved from the definitions, that the evaluator uses instead.
\<close>

definition replace_next ::
  "(string \<Rightarrow> (string \<times> nat) option) \<Rightarrow> char \<Rightarrow> string \<Rightarrow> (string \<times> nat) option \<Rightarrow> string" where
  "replace_next m c cs found =
     (case found of
        None \<Rightarrow> c # replace_all m cs
      | Some (r, n) \<Rightarrow>
          (case n of
             0 \<Rightarrow> r @ c # replace_all m cs
           | Suc j \<Rightarrow> r @ replace_all m (drop j cs)))"

definition replace_next_st ::
  "('s \<Rightarrow> string \<Rightarrow> ((string \<times> 's) \<times> nat) option) \<Rightarrow> 's \<Rightarrow> char \<Rightarrow> string \<Rightarrow>
   ((string \<times> 's) \<times> nat) option \<Rightarrow> string" where
  "replace_next_st m st c cs found =
     (case found of
        None \<Rightarrow> c # replace_all_st m st cs
      | Some ((r, st'), n) \<Rightarrow>
          (case n of
             0 \<Rightarrow> r @ c # replace_all_st m st' cs
           | Suc j \<Rightarrow> r @ replace_all_st m st' (drop j cs)))"

definition scan_next ::
  "bool \<Rightarrow> (string \<Rightarrow> ('a \<times> nat) option) \<Rightarrow> char \<Rightarrow> string \<Rightarrow> ('a \<times> nat) option \<Rightarrow>
   (string \<times> 'a \<times> nat) option" where
  "scan_next dotall k c cs found =
     (case found of
        Some (a, n) \<Rightarrow> Some ([], a, n)
      | None \<Rightarrow>
          if dotall \<or> \<not> is_line_terminator c then
            (case scan_lazy dotall k cs of
               Some (content, a, n) \<Rightarrow> Some (c # content, a, n)
             | None \<Rightarrow> None)
          else None)"

lemma replace_all_eval [code]:
  "replace_all m [] = (case m [] of None \<Rightarrow> [] | Some (r, n) \<Rightarrow> r)"
  "replace_all m (c # cs) = replace_next m c cs (m (c # cs))"
  by (simp_all add: replace_next_def)

lemma replace_next_eval [code]:
  "replace_next m c cs None = c # replace_all m cs"
  "replace_next m c cs (Some (r, n)) =
     (if n = 0 then r @ c # replace_all m cs else r @ replace_all m (drop (n - 1) cs))"
  by (simp_all add: replace_next_def split: nat.splits)

lemma replace_all_st_eval [code]:
  "replace_all_st m st [] = (case m st [] of None \<Rightarrow> [] | Some ((r, st'), n) \<Rightarrow> r)"
  "replace_all_st m st (c # cs) = replace_next_st m st c cs (m st (c # cs))"
  by (simp_all add: replace_next_st_def)

lemma replace_next_st_eval [code]:
  "replace_next_st m st c cs None = c # replace_all_st m st cs"
  "replace_next_st m st c cs (Some ((r, st'), n)) =
     (if n = 0 then r @ c # replace_all_st m st' cs else r @ replace_all_st m st' (drop (n - 1) cs))"
  by (simp_all add: replace_next_st_def split: nat.splits)

lemma scan_lazy_eval [code]:
  "scan_lazy dotall k [] = (case k [] of Some (a, n) \<Rightarrow> Some ([], a, n) | None \<Rightarrow> None)"
  "scan_lazy dotall k (c # cs) = scan_next dotall k c cs (k (c # cs))"
  by (simp_all add: scan_next_def)

lemma scan_next_eval [code]:
  "scan_next dotall k c cs (Some (a, n)) = Some ([], a, n)"
  "scan_next dotall k c cs None =
     (if dotall \<or> \<not> is_line_terminator c
      then map_option (\<lambda>(content, a, n). (c # content, a, n)) (scan_lazy dotall k cs)
      else None)"
  by (simp_all add: scan_next_def split: option.splits)

section \<open>The claims read as specifications\<close>

text \<open>
  The grouping of section 4.4 of the spec, in the spec's words: consecutive chunks of
  exactly \<open>n\<close> words, the final chunk possibly shorter.
\<close>

function chunks_spec :: "nat \<Rightarrow> 'a list \<Rightarrow> 'a list list" where
  "chunks_spec n xs = (if xs = [] \<or> n = 0 then [] else take n xs # chunks_spec n (drop n xs))"
  by pat_completeness auto
termination
  by (relation "measure (\<lambda>(n, xs). length xs)") auto

text \<open>A wrap directive that was supplied with a strictly positive value.\<close>

definition positive :: "int option \<Rightarrow> bool" where
  "positive v = (case v of None \<Rightarrow> False | Some n \<Rightarrow> 0 < n)"

text \<open>A pattern matches somewhere in a text: at one of its positions, the end included.\<close>

fun anywhere :: "(string \<Rightarrow> 'a option) \<Rightarrow> string \<Rightarrow> bool" where
  "anywhere rx [] = (rx [] \<noteq> None)"
| "anywhere rx (c # cs) = (rx (c # cs) \<noteq> None \<or> anywhere rx cs)"

text \<open>
  A text without tags, without whitespace standing between a \<open>>\<close> and a \<open><\<close>, and
  without one of the four entities the decoder knows: the generic tag pattern
  \<open>/<[^>]+>/\<close>, the pattern \<open>/>\s+</\<close> and the four entity patterns match nowhere.
\<close>

definition plain_text :: "string \<Rightarrow> bool" where
  "plain_text s \<longleftrightarrow>
     \<not> anywhere rx_any_tag s \<and> \<not> anywhere rx_inter_tag_space s \<and>
     \<not> anywhere (rx_lit ''&nbsp;'') s \<and> \<not> anywhere (rx_lit ''&amp;'') s \<and>
     \<not> anywhere (rx_lit ''&lt;'') s \<and> \<not> anywhere (rx_lit ''&gt;'') s"

text \<open>
  Two ignore lists that hold the same lowercase entries (an entry is lowercase when
  \<open>toLowerCase\<close> leaves it as it is) and are both empty or both not.
\<close>

definition same_lowercase_entries :: "string list \<Rightarrow> string list \<Rightarrow> bool" where
  "same_lowercase_entries ig ig' \<longleftrightarrow>
     (\<forall>x. toLowerCase x = x \<longrightarrow> (x \<in> set ig \<longleftrightarrow> x \<in> set ig')) \<and> (ig = [] \<longleftrightarrow> ig' = [])"

text \<open>A text that nowhere holds the literal \<open>p\<close>, read under the \<open>i\<close> flag.\<close>

definition lacks :: "string \<Rightarrow> string \<Rightarrow> bool" where
  "lacks p s \<longleftrightarrow> \<not> anywhere (rx_lit p) s"

text \<open>A text without a line terminator.\<close>

definition single_line :: "string \<Rightarrow> bool" where
  "single_line s \<longleftrightarrow> list_all (\<lambda>c. \<not> is_line_terminator c) s"

text \<open>
  An opening tag \<open><t>\<close> and a closing tag \<open></t>\<close> as they are written in a document, in
  any letter case.
\<close>

definition opens :: "string \<Rightarrow> string \<Rightarrow> bool" where
  "opens t ot \<longleftrightarrow> lit_ci (''<'' @ t @ ''>'') ot \<and> length ot = length t + 2"

definition closes :: "string \<Rightarrow> string \<Rightarrow> bool" where
  "closes t ct \<longleftrightarrow> lit_ci (''</'' @ t @ ''>'') ct \<and> length ct = length t + 3"

text \<open>
  A block of a document: the text before it, its opening tag, its content and its closing
  tag. The text before the block holds no opening tag, and the content runs to the first
  closing tag: it holds none itself. Without the \<open>s\<close> flag the content holds no line
  terminator.
\<close>

type_synonym block = "string \<times> string \<times> string \<times> string"

fun render_block :: "block \<Rightarrow> string" where
  "render_block (pre, ot, c, ct) = pre @ ot @ c @ ct"

fun wf_block :: "bool \<Rightarrow> string \<Rightarrow> block \<Rightarrow> bool" where
  "wf_block dotall t (pre, ot, c, ct) \<longleftrightarrow>
     lacks (''<'' @ t @ ''>'') pre \<and> opens t ot \<and> closes t ct \<and>
     lacks (''</'' @ t @ ''>'') c \<and> (dotall \<or> single_line c)"

text \<open>A block without its two tags: the text before it and its content.\<close>

fun unwrapped :: "block \<Rightarrow> string" where
  "unwrapped (pre, ot, c, ct) = pre @ c"

text \<open>
  The items of an ordered list as the claim numbers them: from \<open>n\<close> on, one more for every
  item, each item replaced by its number, a dot, a space, its content and a newline; the
  text before an item stays where it is.
\<close>

fun numbered_items :: "nat \<Rightarrow> block list \<Rightarrow> string" where
  "numbered_items n [] = []"
| "numbered_items n ((pre, ot, c, ct) # items) =
     pre @ show_nat n @ ''. '' @ c @ ''\<newline>'' @ numbered_items (Suc n) items"

text \<open>
  An ordered list in a document: the text before it, the opening tag, the items (each with
  the text before it), the text after the last item and the closing tag. No further item
  stands after the last one, and the content holds no closing tag of the list. The
  numbering of every list starts at 1.
\<close>

datatype ol_block = OlBlock string string "block list" string string

fun render_ol :: "ol_block \<Rightarrow> string" where
  "render_ol (OlBlock pre ot items fin ct) = pre @ ot @ concat (map render_block items) @ fin @ ct"

fun numbered_ol :: "ol_block \<Rightarrow> string" where
  "numbered_ol (OlBlock pre ot items fin ct) = pre @ numbered_items 1 items @ fin"

fun wf_ol :: "ol_block \<Rightarrow> bool" where
  "wf_ol (OlBlock pre ot items fin ct) \<longleftrightarrow>
     lacks ''<ol>'' pre \<and> opens ''ol'' ot \<and> closes ''ol'' ct \<and>
     list_all (wf_block False ''li'') items \<and> \<not> anywhere (rx_element False ''li'') fin \<and>
     lacks ''</ol>'' (concat (map render_block items) @ fin)"

text \<open>
  What the claim puts in the place of a blockquote: the \<open><br>\<close> tags of the content become
  newlines, the content is trimmed and split into lines, every line is trimmed and
  prefixed with \<open>> \<close>, and the lines are joined by newlines.
\<close>

fun quoted :: "block \<Rightarrow> string" where
  "quoted (pre, ot, c, ct) =
     pre @ join ''\<newline>''
       (map (\<lambda>line. ''> '' @ trim line) (split_chr (CHR ''\<newline>'') (trim (br_to_newline c))))"

text \<open>
  A line-break tag as it is written: \<open><br\<close> in any letter case, whitespace or none, and
  \<open>>\<close> or \<open>/>\<close>. A text is read as line-break tags, each with the text before it (in
  which no line-break tag stands), and a rest.
\<close>

definition br_tag :: "string \<Rightarrow> bool" where
  "br_tag tag \<longleftrightarrow>
     lit_ci ''<br'' tag \<and>
     (dropWhile is_ws (drop 3 tag) = ''/>'' \<or> dropWhile is_ws (drop 3 tag) = ''>'')"

type_synonym br_piece = "string \<times> string"

fun render_br :: "br_piece \<Rightarrow> string" where
  "render_br (pre, tag) = pre @ tag"

fun broken :: "br_piece \<Rightarrow> string" where
  "broken (pre, tag) = pre @ ''\<newline>''"

fun wf_br :: "br_piece \<Rightarrow> bool" where
  "wf_br (pre, tag) \<longleftrightarrow> \<not> anywhere rx_br pre \<and> br_tag tag"

text \<open>
  A document as a sequence of text pieces and tags. A tag is written \<open><\<close>, a slash when
  it is a closing tag, its name, the rest of the tag (attributes, or the slash of a
  self-closing tag) and \<open>>\<close>.
\<close>

datatype token = Text string | Tag bool string string

fun render :: "token \<Rightarrow> string" where
  "render (Text s) = s"
| "render (Tag closing name attrs) =
     ''<'' @ (if closing then ''/'' else []) @ name @ attrs @ ''>''"

text \<open>
  A text piece holds no \<open><\<close>. A tag name starts with a letter, goes on with letters,
  digits and hyphens and ends with a letter or a digit; the rest of the tag holds no
  \<open>>\<close> and does not go on with a letter, a digit, a hyphen or an underscore.
\<close>

fun wf_token :: "token \<Rightarrow> bool" where
  "wf_token (Text s) = (CHR ''<'' \<notin> set s)"
| "wf_token (Tag closing name attrs) =
     (name \<noteq> [] \<and> is_letter (hd name) \<and> list_all is_name_char name \<and> is_alnum (last name) \<and>
      CHR ''>'' \<notin> set attrs \<and>
      (case attrs of [] \<Rightarrow> True | a # as \<Rightarrow> \<not> is_name_char a \<and> \<not> is_word_char a))"

text \<open>What strip mode is to keep: every text piece, and the tags the ignore list names.\<close>

fun kept :: "string list \<Rightarrow> token \<Rightarrow> bool" where
  "kept ig (Text s) = True"
| "kept ig (Tag closing name attrs) = (toLowerCase name \<in> set (map toLowerCase ig))"

text \<open>
  With an empty ignore list strip mode asks nothing of a tag name: a tag is whatever
  stands between a \<open><\<close> and the next \<open>>\<close>, one character at least.
\<close>

fun wf_any :: "token \<Rightarrow> bool" where
  "wf_any (Text s) = (CHR ''<'' \<notin> set s)"
| "wf_any (Tag closing name attrs) =
     ((closing \<or> name \<noteq> [] \<or> attrs \<noteq> []) \<and> CHR ''>'' \<notin> set name \<and> CHR ''>'' \<notin> set attrs)"

text \<open>
  The same for the final strip of \<open>preserveFormat\<close>, whose pattern takes letters and digits
  for a tag name and compares the lowercased name with the ignore list as it is written:
  a tag name is made of letters and digits, and the rest of the tag holds no \<open>>\<close> and
  does not go on with a letter or a digit.
\<close>

fun wf_named :: "token \<Rightarrow> bool" where
  "wf_named (Text s) = (CHR ''<'' \<notin> set s)"
| "wf_named (Tag closing name attrs) =
     (name \<noteq> [] \<and> list_all is_alnum name \<and> CHR ''>'' \<notin> set attrs \<and>
      (case attrs of [] \<Rightarrow> True | a # as \<Rightarrow> \<not> is_alnum a))"

fun stays :: "string list \<Rightarrow> token \<Rightarrow> bool" where
  "stays ig (Text s) = True"
| "stays ig (Tag closing name attrs) = (toLowerCase name \<in> set ig)"

declare chunks_spec.simps [simp del]

section \<open>wrapByWords: the word-count wrap\<close>

lemma chunks_spec_Nil: "chunks_spec n [] = []"
  by (simp add: chunks_spec.simps)

lemma chunks_spec_step:
  "xs \<noteq> [] \<Longrightarrow> 0 < n \<Longrightarrow> chunks_spec n xs = take n xs # chunks_spec n (drop n xs)"
  by (subst chunks_spec.simps) simp

lemma concat_chunks_spec: "0 < n \<Longrightarrow> concat (chunks_spec n xs) = xs"
proof (induction n xs rule: chunks_spec.induct)
  case (1 n xs)
  show ?case
  proof (cases "xs = []")
    case True
    then show ?thesis by (simp add: chunks_spec_Nil)
  next
    case False
    with 1 show ?thesis by (simp add: chunks_spec_step)
  qed
qed

lemma chunks_spec_full:
  "0 < n \<Longrightarrow> c \<in> set (butlast (chunks_spec n xs)) \<Longrightarrow> length c = n"
proof (induction n xs rule: chunks_spec.induct)
  case (1 n xs)
  show ?case
  proof (cases "xs = []")
    case True
    with 1 show ?thesis by (simp add: chunks_spec_Nil)
  next
    case False
    show ?thesis
    proof (cases "drop n xs = []")
      case True
      with False 1 show ?thesis by (simp add: chunks_spec_step chunks_spec_Nil)
    next
      case d: False
      then have ne: "chunks_spec n (drop n xs) \<noteq> []"
        using 1(2) by (simp add: chunks_spec_step)
      have "c \<in> set (take n xs # butlast (chunks_spec n (drop n xs)))"
        using 1(3) False 1(2) ne by (simp add: chunks_spec_step)
      then consider "c = take n xs" | "c \<in> set (butlast (chunks_spec n (drop n xs)))" by auto
      then show ?thesis
      proof cases
        case 1
        with d show ?thesis by simp
      next
        case 2
        with "1.IH" False "1.prems"(1) show ?thesis by simp
      qed
    qed
  qed
qed

lemma chunks_spec_last:
  "0 < n \<Longrightarrow> xs \<noteq> [] \<Longrightarrow>
   chunks_spec n xs \<noteq> [] \<and> 0 < length (last (chunks_spec n xs)) \<and> length (last (chunks_spec n xs)) \<le> n"
proof (induction n xs rule: chunks_spec.induct)
  case (1 n xs)
  show ?case
  proof (cases "drop n xs = []")
    case True
    with 1(2,3) show ?thesis by (simp add: chunks_spec_step chunks_spec_Nil)
  next
    case False
    with 1 show ?thesis by (simp add: chunks_spec_step)
  qed
qed

lemma wrap_loop_chunks:
  "0 < count \<Longrightarrow>
   wrap_loop words count i lines = lines @ map (join '' '') (chunks_spec count (drop i words))"
proof (induction words count i lines rule: wrap_loop.induct)
  case (1 words count i lines)
  show ?case
  proof (cases "i < length words")
    case True
    then have ne: "drop i words \<noteq> []" by simp
    have "wrap_loop words count i lines =
          wrap_loop words count (i + count) (lines @ [join '' '' (slice words i (i + count))])"
      using True 1(2) by (subst wrap_loop.simps) simp
    also have "\<dots> = (lines @ [join '' '' (slice words i (i + count))]) @
                 map (join '' '') (chunks_spec count (drop (i + count) words))"
      using 1 True by simp
    also have "\<dots> = lines @ map (join '' '') (chunks_spec count (drop i words))"
      using ne 1(2) by (simp add: chunks_spec_step slice_def add.commute)
    finally show ?thesis .
  next
    case False
    then show ?thesis by (subst wrap_loop.simps) (simp add: chunks_spec_Nil)
  qed
qed

lemma split_ws_from_no_ws:
  "list_all (\<lambda>c. \<not> is_ws c) cur \<Longrightarrow>
   list_all (list_all (\<lambda>c. \<not> is_ws c)) (split_ws_from cur s)"
proof (induction cur s rule: split_ws_from.induct)
  case (1 cur)
  then show ?case by simp
next
  case (2 cur c cs)
  show ?case
  proof (cases "is_ws c")
    case True
    with 2 show ?thesis by simp
  next
    case False
    with 2 show ?thesis by simp
  qed
qed

lemma split_ws_from_ne: "split_ws_from cur s \<noteq> []"
  by (induction cur s rule: split_ws_from.induct) simp_all

lemma wrapByWords_example:
  "wrapByWords ''one two three four five'' 2 = Inr ''one two\<newline>three four\<newline>five''"
  by code_simp

text \<open>
  Claim C2. \<open>wrapByWords text count\<close> fails with InvalidArgument exactly when \<open>count \<le> 0\<close>.
  For a positive count the result is the trimmed text, cut at its whitespace runs into
  words (no word holds a whitespace character), grouped into consecutive chunks, each
  chunk joined by one space and the chunks joined by newlines; the chunks put together are
  the word sequence again, every chunk but the last has exactly \<open>count\<close> words, and the
  last one has between 1 and \<open>count\<close>. The spec's example evaluates as stated.
\<close>

theorem wrapByWords_groups_words:
  "(wrapByWords text count = Inl InvalidArgument \<longleftrightarrow> count \<le> 0) \<and>
   (0 < count \<longrightarrow>
      wrapByWords text count =
        Inr (join ''\<newline>'' (map (join '' '') (chunks_spec (nat count) (split_ws (trim text))))) \<and>
      list_all (list_all (\<lambda>c. \<not> is_ws c)) (split_ws (trim text)) \<and>
      concat (chunks_spec (nat count) (split_ws (trim text))) = split_ws (trim text) \<and>
      list_all (\<lambda>chunk. length chunk = nat count)
        (butlast (chunks_spec (nat count) (split_ws (trim text)))) \<and>
      chunks_spec (nat count) (split_ws (trim text)) \<noteq> [] \<and>
      0 < length (last (chunks_spec (nat count) (split_ws (trim text)))) \<and>
      length (last (chunks_spec (nat count) (split_ws (trim text)))) \<le> nat count) \<and>
   wrapByWords ''one two three four five'' 2 = Inr ''one two\<newline>three four\<newline>five''"
proof -
  have err: "wrapByWords text count = Inl InvalidArgument \<longleftrightarrow> count \<le> 0"
    by (simp add: wrapByWords_def)
  have pos: "wrapByWords text count =
        Inr (join ''\<newline>'' (map (join '' '') (chunks_spec (nat count) (split_ws (trim text)))))"
    if "0 < count"
    using that by (simp add: wrapByWords_def wrap_loop_chunks)
  have words: "list_all (list_all (\<lambda>c. \<not> is_ws c)) (split_ws (trim text))"
    unfolding split_ws_def by (rule split_ws_from_no_ws) simp
  have ne: "split_ws (trim text) \<noteq> []"
    by (simp add: split_ws_def split_ws_from_ne)
  have full: "list_all (\<lambda>chunk. length chunk = nat count)
        (butlast (chunks_spec (nat count) (split_ws (trim text))))"
    if "0 < count"
    using that chunks_spec_full [of "nat count" _ "split_ws (trim text)"]
    by (simp add: list_all_iff)
  show ?thesis
    using err pos words full ne concat_chunks_spec [of "nat count" "split_ws (trim text)"]
      chunks_spec_last [of "nat count" "split_ws (trim text)"] wrapByWords_example
    by simp
qed

theorem wrapByWords_groups_words_witness:
  "wrapByWords ''a  b c '' 2 = Inr ''a b\<newline>c'' \<and>
   chunks_spec 2 (split_ws (trim ''a  b c '')) = [[''a'', ''b''], [''c'']] \<and>
   wrapByWords ''a b'' 0 = Inl InvalidArgument"
proof -
  have c: "chunks_spec 2 (split_ws (trim ''a  b c '')) = [[''a'', ''b''], [''c'']]"
    by code_simp
  have "(0::int) < 2" by simp
  with wrapByWords_groups_words [of "''a  b c ''" 2]
  have "wrapByWords ''a  b c '' 2 =
        Inr (join ''\<newline>'' (map (join '' '') (chunks_spec (nat 2) (split_ws (trim ''a  b c '')))))"
    by blast
  then have a: "wrapByWords ''a  b c '' 2 = Inr ''a b\<newline>c''"
    using c by simp
  have "(0::int) \<le> 0" by simp
  with wrapByWords_groups_words [of "''a b''" 0]
  have b: "wrapByWords ''a b'' 0 = Inl InvalidArgument" by blast
  from a b c show ?thesis by simp
qed

section \<open>Global replacement, and the final newline collapse\<close>

lemma replace_with_Nil: "rx [] = None \<Longrightarrow> replace_with rx cb [] = []"
  by (simp add: replace_with_def)

lemma replace_with_None:
  "rx (c # cs) = None \<Longrightarrow> replace_with rx cb (c # cs) = c # replace_with rx cb cs"
  by (simp add: replace_with_def)

lemma replace_with_Some:
  "rx (c # cs) = Some (caps, Suc j) \<Longrightarrow>
   replace_with rx cb (c # cs) = cb (take (Suc j) (c # cs)) caps @ replace_with rx cb (drop j cs)"
  by (simp add: replace_with_def)

lemma prefix_nl3: "prefix ''\<newline>\<newline>\<newline>'' s \<longleftrightarrow> 3 \<le> length (takeWhile is_nl s)"
proof (cases s)
  case Nil
  then show ?thesis by simp
next
  case s1: (Cons a t)
  show ?thesis
  proof (cases t)
    case Nil
    with s1 show ?thesis by (simp add: is_nl_def)
  next
    case t1: (Cons b u)
    show ?thesis
    proof (cases u)
      case Nil
      with s1 t1 show ?thesis by (simp add: is_nl_def)
    next
      case (Cons c v)
      with s1 t1 show ?thesis by (simp add: is_nl_def)
    qed
  qed
qed

lemma takeWhile_dropWhile_Nil: "takeWhile P (dropWhile P xs) = []"
  by (induction xs) auto

lemma collapse_Nil: "collapse_newlines [] = []"
  by (simp add: collapse_newlines_def replace_with_Nil rx_newlines3_def)

lemma collapse_keep:
  assumes "\<not> 3 \<le> length (takeWhile is_nl (c # cs))"
  shows "collapse_newlines (c # cs) = c # collapse_newlines cs"
proof -
  have "rx_newlines3 (c # cs) = None"
    using assms by (simp add: rx_newlines3_def)
  then show ?thesis
    unfolding collapse_newlines_def by (rule replace_with_None)
qed

lemma collapse_run:
  assumes "3 \<le> length (takeWhile is_nl s)"
  shows "collapse_newlines s = ''\<newline>\<newline>'' @ collapse_newlines (dropWhile is_nl s)"
    and "length (dropWhile is_nl s) < length s"
proof -
  obtain j where j: "length (takeWhile is_nl s) = Suc j"
    using assms by (cases "length (takeWhile is_nl s)") auto
  obtain c cs where s: "s = c # cs"
    using assms by (cases s) auto
  have "dropWhile is_nl s = drop (Suc j) s"
    by (metis dropWhile_eq_drop j)
  then have d: "dropWhile is_nl (c # cs) = drop j cs"
    unfolding s by simp
  have m: "rx_newlines3 (c # cs) = Some ((), Suc j)"
    using assms j unfolding s by (simp add: rx_newlines3_def)
  have "collapse_newlines (c # cs) = ''\<newline>\<newline>'' @ collapse_newlines (drop j cs)"
    unfolding collapse_newlines_def
    using replace_with_Some [of rx_newlines3 c cs "()" j, OF m] by simp
  then show "collapse_newlines s = ''\<newline>\<newline>'' @ collapse_newlines (dropWhile is_nl s)"
    unfolding s d .
  show "length (dropWhile is_nl s) < length s"
    unfolding s d by simp
qed

lemma collapse_lead:
  "length (takeWhile is_nl (collapse_newlines s)) = min (length (takeWhile is_nl s)) 2"
proof (induction s rule: length_induct)
  case (1 s)
  show ?case
  proof (cases "3 \<le> length (takeWhile is_nl s)")
    case True
    from 1 collapse_run(2) [OF True]
    have "length (takeWhile is_nl (collapse_newlines (dropWhile is_nl s))) =
          min (length (takeWhile is_nl (dropWhile is_nl s))) 2"
      by blast
    then have z: "takeWhile is_nl (collapse_newlines (dropWhile is_nl s)) = []"
      by (simp add: takeWhile_dropWhile_Nil)
    have nl: "is_nl (CHR ''\<newline>'')" by (simp add: is_nl_def)
    show ?thesis
      unfolding collapse_run(1) [OF True] using z True nl by simp
  next
    case False
    show ?thesis
    proof (cases s)
      case Nil
      then show ?thesis by (simp add: collapse_Nil)
    next
      case (Cons c cs)
      have e: "collapse_newlines s = c # collapse_newlines cs"
        unfolding Cons using False Cons by (intro collapse_keep) simp
      have ih: "length (takeWhile is_nl (collapse_newlines cs)) = min (length (takeWhile is_nl cs)) 2"
        using 1 Cons by simp
      show ?thesis
        using e ih False Cons by (cases "is_nl c") auto
    qed
  qed
qed

lemma collapse_no_nl3: "\<not> sublist ''\<newline>\<newline>\<newline>'' (collapse_newlines s)"
proof (induction s rule: length_induct)
  case (1 s)
  have lead: "\<not> prefix ''\<newline>\<newline>\<newline>'' (collapse_newlines t)" for t
    unfolding prefix_nl3 collapse_lead by simp
  show ?case
  proof (cases "3 \<le> length (takeWhile is_nl s)")
    case True
    from 1 collapse_run(2) [OF True]
    have ih: "\<not> sublist ''\<newline>\<newline>\<newline>'' (collapse_newlines (dropWhile is_nl s))"
      by blast
    have "collapse_newlines s = ''\<newline>\<newline>'' @ collapse_newlines (dropWhile is_nl s)"
      by (rule collapse_run(1) [OF True])
    have p1: "\<not> prefix ''\<newline>\<newline>\<newline>'' (collapse_newlines s)" by (rule lead)
    have z: "takeWhile is_nl (collapse_newlines (dropWhile is_nl s)) = []"
      using collapse_lead [of "dropWhile is_nl s"] by (simp add: takeWhile_dropWhile_Nil)
    have p2: "\<not> prefix ''\<newline>\<newline>\<newline>'' (CHR ''\<newline>'' # collapse_newlines (dropWhile is_nl s))"
      unfolding prefix_nl3 using z is_nl_def by simp
    show ?thesis
      using p1 p2 ih unfolding collapse_run(1) [OF True]
      by (simp add: sublist_Cons_right)
  next
    case False
    show ?thesis
    proof (cases s)
      case Nil
      then show ?thesis by (simp add: collapse_Nil)
    next
      case (Cons c cs)
      have e: "collapse_newlines s = c # collapse_newlines cs"
        unfolding Cons using False Cons by (intro collapse_keep) simp
      have ih: "\<not> sublist ''\<newline>\<newline>\<newline>'' (collapse_newlines cs)"
        using 1 Cons by simp
      show ?thesis
        using lead [of s] ih unfolding e by (simp add: sublist_Cons_right)
    qed
  qed
qed

lemma sublist_trim: "sublist (trim s) s"
proof -
  have "sublist (rev (trim s)) (rev (dropWhile is_ws s))"
    unfolding trim_def by simp
  then have "sublist (trim s) (dropWhile is_ws s)"
    by (metis sublist_rev rev_rev_ident)
  also have "sublist (dropWhile is_ws s) s" by simp
  finally show ?thesis .
qed

text \<open>
  Claim C4. For every input and every ignore list, the string returned by \<open>preserveFormat\<close>
  holds no run of three or more consecutive newline characters: three newlines in a row
  are not a contiguous part of it.
\<close>

theorem preserveFormat_no_three_newlines:
  "\<not> sublist ''\<newline>\<newline>\<newline>'' (preserveFormat doc ig)"
proof (cases "doc = []")
  case True
  then show ?thesis by (simp add: preserveFormat_def)
next
  case False
  then obtain x where x: "preserveFormat doc ig = trim (collapse_newlines x)"
    by (simp add: preserveFormat_def)
  show ?thesis
  proof
    assume "sublist ''\<newline>\<newline>\<newline>'' (preserveFormat doc ig)"
    then have "sublist ''\<newline>\<newline>\<newline>'' (collapse_newlines x)"
      unfolding x using sublist_trim sublist_order.order_trans by blast
    then show False using collapse_no_nl3 by blast
  qed
qed

theorem preserveFormat_no_three_newlines_witness:
  "preserveFormat ''a<br><br><br><br>b'' [] = ''a\<newline>\<newline>b'' \<and>
   \<not> sublist ''\<newline>\<newline>\<newline>'' (preserveFormat ''a<br><br><br><br>b'' [])"
proof -
  have "preserveFormat ''a<br><br><br><br>b'' [] = ''a\<newline>\<newline>b''"
    by code_simp
  then show ?thesis
    using preserveFormat_no_three_newlines [of "''a<br><br><br><br>b''" "[]"] by simp
qed

section \<open>textify: when the output is wrapped\<close>

lemma wrap_output_words:
  "wrapWords' = Some n \<Longrightarrow> 0 < n \<Longrightarrow> wrap_output wrapWords' wl output = wrapByWords output n"
  by (simp add: wrap_output_def)

lemma wrap_output_length:
  "\<not> positive ww \<Longrightarrow> wl = Some l \<Longrightarrow> 0 < l \<Longrightarrow>
   wrap_output ww wl output = Inr (wrapByLength output l)"
  by (auto simp add: wrap_output_def wrap_length_branch_def positive_def split: option.splits)

lemma wrap_output_none:
  "\<not> positive ww \<Longrightarrow> \<not> positive wl \<Longrightarrow> wrap_output ww wl output = Inr output"
  by (auto simp add: wrap_output_def wrap_length_branch_def positive_def split: option.splits)

text \<open>
  Claim C6. \<open>textify\<close> wraps its output only when a wrap directive with a strictly positive
  value is supplied. When \<open>wrapWords\<close> is positive the result is \<open>wrapByWords\<close> of the
  converted text, whatever \<open>wrapLength\<close> is, and no error is raised; when only
  \<open>wrapLength\<close> is positive the result is \<open>wrapByLength\<close> of the converted text; when
  neither is positive the converted text is returned as it is.
\<close>

theorem textify_wrap_directive:
  "html opts \<noteq> [] \<longrightarrow>
     (\<forall>n. wrapWords opts = Some n \<and> 0 < n \<longrightarrow>
        textify opts = wrapByWords (convert opts) n \<and> (\<exists>r. textify opts = Inr r)) \<and>
     (\<forall>l. \<not> positive (wrapWords opts) \<and> wrapLength opts = Some l \<and> 0 < l \<longrightarrow>
        textify opts = Inr (wrapByLength (convert opts) l)) \<and>
     (\<not> positive (wrapWords opts) \<and> \<not> positive (wrapLength opts) \<longrightarrow>
        textify opts = Inr (convert opts))"
proof (intro impI conjI allI)
  fix n
  assume h: "html opts \<noteq> []" and n: "wrapWords opts = Some n \<and> 0 < n"
  then show w: "textify opts = wrapByWords (convert opts) n"
    by (simp add: textify_def wrap_output_words)
  from n show "\<exists>r. textify opts = Inr r"
    unfolding w by (simp add: wrapByWords_def)
next
  fix l
  assume "html opts \<noteq> []"
    and "\<not> positive (wrapWords opts) \<and> wrapLength opts = Some l \<and> 0 < l"
  then show "textify opts = Inr (wrapByLength (convert opts) l)"
    by (simp add: textify_def wrap_output_length)
next
  assume "html opts \<noteq> []"
    and "\<not> positive (wrapWords opts) \<and> \<not> positive (wrapLength opts)"
  then show "textify opts = Inr (convert opts)"
    by (simp add: textify_def wrap_output_none)
qed

lemma convert_strip_example:
  "convert \<lparr>html = ''<p>one two three four five</p>'', preserveFormatting = Some False,
      ignoreTags = None, wrapLength = Some 10, wrapWords = Some 2\<rparr> = ''one two three four five''"
  by code_simp

theorem textify_wrap_directive_witness:
  "textify \<lparr>html = ''<p>one two three four five</p>'', preserveFormatting = Some False,
      ignoreTags = None, wrapLength = Some 10, wrapWords = Some 2\<rparr>
     = Inr ''one two\<newline>three four\<newline>five'' \<and>
   textify \<lparr>html = ''<p>one two three four five</p>'', preserveFormatting = Some False,
      ignoreTags = None, wrapLength = Some 10, wrapWords = Some 0\<rparr>
     = Inr ''one two\<newline>three four\<newline>five'' \<and>
   textify \<lparr>html = ''<p>one two three four five</p>'', preserveFormatting = Some False,
      ignoreTags = None, wrapLength = Some (- 1), wrapWords = None\<rparr>
     = Inr ''one two three four five''"
proof -
  let ?o = "\<lambda>wl ww. \<lparr>html = ''<p>one two three four five</p>'', preserveFormatting = Some False,
      ignoreTags = None, wrapLength = wl, wrapWords = ww\<rparr>"
  have c: "convert (?o wl ww) = ''one two three four five''" for wl ww
    using convert_strip_example by (simp add: convert_def)
  have a: "textify (?o (Some 10) (Some 2)) = wrapByWords ''one two three four five'' 2"
    using textify_wrap_directive [of "?o (Some 10) (Some 2)"] c by simp
  have b: "textify (?o (Some 10) (Some 0)) = Inr (wrapByLength ''one two three four five'' 10)"
    using textify_wrap_directive [of "?o (Some 10) (Some 0)"] c by (simp add: positive_def)
  have d: "textify (?o (Some (- 1)) None) = Inr ''one two three four five''"
    using textify_wrap_directive [of "?o (Some (- 1)) None"] c by (simp add: positive_def)
  have e: "wrapByLength ''one two three four five'' 10 = ''one two\<newline>three four\<newline>five''"
    by code_simp
  show ?thesis
    using a b d e wrapByWords_example by simp
qed

section \<open>wrapByLength: the character-budget wrap\<close>

lemma join_Cons: "join sep (x # xs) = (if xs = [] then x else x @ sep @ join sep xs)"
  by (cases xs) simp_all

lemma join_merge: "join sep (xs @ [a @ sep @ b] @ ys) = join sep (xs @ [a, b] @ ys)"
  by (induction xs) (simp_all add: join_Cons)

lemma fill_lines_keeps_words:
  "list_all (\<lambda>w. w \<noteq> []) ws \<Longrightarrow>
   join '' '' (fill_lines L lines cur ws) =
   join '' '' (lines @ (if cur = [] then [] else [cur]) @ ws)"
proof (induction ws arbitrary: lines cur)
  case Nil
  then show ?case by simp
next
  case (Cons w ws)
  then have w: "w \<noteq> []" and ws: "list_all (\<lambda>w. w \<noteq> []) ws" by simp_all
  show ?case
  proof (cases "cur = []")
    case True
    then show ?thesis using Cons.IH [OF ws, of lines w] w by simp
  next
    case False
    show ?thesis
    proof (cases "L < length (cur @ '' '' @ w)")
      case True
      then show ?thesis using Cons.IH [OF ws, of "lines @ [cur]" w] w False by simp
    next
      case fits: False
      have "join '' '' (fill_lines L lines cur (w # ws)) =
            join '' '' (lines @ [cur @ '' '' @ w] @ ws)"
        using Cons.IH [OF ws, of lines "cur @ '' '' @ w"] False fits by simp
      also have "\<dots> = join '' '' (lines @ [cur, w] @ ws)"
        by (rule join_merge)
      finally show ?thesis using False by simp
    qed
  qed
qed

lemma fill_lines_fit:
  "list_all (\<lambda>l. length l \<le> L \<or> l \<in> W) lines \<Longrightarrow> cur = [] \<or> length cur \<le> L \<or> cur \<in> W \<Longrightarrow>
   set ws \<subseteq> W \<Longrightarrow>
   list_all (\<lambda>l. length l \<le> L \<or> l \<in> W) (fill_lines L lines cur ws)"
proof (induction ws arbitrary: lines cur)
  case Nil
  then show ?case by auto
next
  case (Cons w ws)
  then have w: "w \<in> W" and ws: "set ws \<subseteq> W" by simp_all
  show ?case
  proof (cases "cur = []")
    case True
    then show ?thesis using Cons.IH [of lines w] Cons.prems(1) w ws by simp
  next
    case False
    show ?thesis
    proof (cases "L < length (cur @ '' '' @ w)")
      case True
      then show ?thesis
        using Cons.IH [of "lines @ [cur]" w] Cons.prems(1,2) w ws False by simp
    next
      case fits: False
      then show ?thesis
        using Cons.IH [of lines "cur @ '' '' @ w"] Cons.prems(1) ws False by simp
    qed
  qed
qed

lemma wrapByLength_example:
  "wrapByLength ''This is a test sentence for wrapping.'' 10 =
     ''This is a\<newline>test\<newline>sentence\<newline>for\<newline>wrapping.''"
  by code_simp

text \<open>
  Claim C3. For a positive budget \<open>L\<close>, \<open>wrapByLength\<close> is the greedy fill of the words of
  the text, the finished lines joined by newlines. The fill starts with an empty current
  line; a word met on an empty current line is placed there whatever its length; on a
  current line that is not empty, the word opens a new line when the line with a space and
  the word would be longer than \<open>L\<close>, and is appended after a space otherwise; at the end
  the current line is emitted when it is not empty. So every line of the result is within
  the budget or is one word standing alone, and the lines put together with spaces are the
  words put together with spaces. The spec's example evaluates as stated.
\<close>

theorem wrapByLength_greedy:
  "0 < L \<longrightarrow>
     wrapByLength text L = join ''\<newline>'' (fill_lines (nat L) [] [] (split_ws (trim text))) \<and>
     (\<forall>lines w ws. fill_lines (nat L) lines [] (w # ws) = fill_lines (nat L) lines w ws) \<and>
     (\<forall>lines cur w ws. cur \<noteq> [] \<and> nat L < length (cur @ '' '' @ w) \<longrightarrow>
        fill_lines (nat L) lines cur (w # ws) = fill_lines (nat L) (lines @ [cur]) w ws) \<and>
     (\<forall>lines cur w ws. cur \<noteq> [] \<and> length (cur @ '' '' @ w) \<le> nat L \<longrightarrow>
        fill_lines (nat L) lines cur (w # ws) = fill_lines (nat L) lines (cur @ '' '' @ w) ws) \<and>
     (\<forall>lines cur. fill_lines (nat L) lines cur [] = (if cur = [] then lines else lines @ [cur])) \<and>
     list_all (\<lambda>line. length line \<le> nat L \<or> line \<in> set (split_ws (trim text)))
       (fill_lines (nat L) [] [] (split_ws (trim text))) \<and>
     (\<forall>ws. list_all (\<lambda>w. w \<noteq> []) ws \<longrightarrow>
        join '' '' (fill_lines (nat L) [] [] ws) = join '' '' ws) \<and>
     wrapByLength ''This is a test sentence for wrapping.'' 10 =
       ''This is a\<newline>test\<newline>sentence\<newline>for\<newline>wrapping.''"
proof (intro impI conjI allI)
  assume "0 < L"
  then show "wrapByLength text L = join ''\<newline>'' (fill_lines (nat L) [] [] (split_ws (trim text)))"
    by (simp add: wrapByLength_def)
next
  show "list_all (\<lambda>line. length line \<le> nat L \<or> line \<in> set (split_ws (trim text)))
       (fill_lines (nat L) [] [] (split_ws (trim text)))"
    by (rule fill_lines_fit) simp_all
next
  fix ws :: "string list"
  assume "list_all (\<lambda>w. w \<noteq> []) ws"
  then show "join '' '' (fill_lines (nat L) [] [] ws) = join '' '' ws"
    by (simp add: fill_lines_keeps_words)
next
  show "wrapByLength ''This is a test sentence for wrapping.'' 10 =
       ''This is a\<newline>test\<newline>sentence\<newline>for\<newline>wrapping.''"
    by (rule wrapByLength_example)
qed simp_all

theorem wrapByLength_greedy_witness:
  "wrapByLength ''aa bb cccccc d'' 5 = join ''\<newline>'' (fill_lines 5 [] [] [''aa'', ''bb'', ''cccccc'', ''d'']) \<and>
   fill_lines 5 [] [] [''aa'', ''bb'', ''cccccc'', ''d''] = [''aa bb'', ''cccccc'', ''d'']"
proof -
  have s: "split_ws (trim ''aa bb cccccc d'') = [''aa'', ''bb'', ''cccccc'', ''d'']"
    by code_simp
  have f: "fill_lines 5 [] [] [''aa'', ''bb'', ''cccccc'', ''d''] = [''aa bb'', ''cccccc'', ''d'']"
    by code_simp
  have "(0::int) < 5" by simp
  with wrapByLength_greedy [of 5 "''aa bb cccccc d''"]
  have "wrapByLength ''aa bb cccccc d'' 5 =
        join ''\<newline>'' (fill_lines (nat 5) [] [] (split_ws (trim ''aa bb cccccc d'')))"
    by blast
  then show ?thesis using s f by simp
qed

section \<open>Code units under the i flag\<close>

lemma lower_char_bits:
  "lower_char (Char b0 b1 b2 b3 b4 b5 b6 b7) =
     (if b6 \<and> \<not> b5 \<and>
         (if b7 then \<not> (b0 \<and> b1 \<and> b2 \<and> b4)
          else (b0 \<or> b1 \<or> b2 \<or> b3 \<or> b4) \<and> \<not> (b4 \<and> b3 \<and> (b2 \<or> b1 \<and> b0)))
      then Char b0 b1 b2 b3 b4 True b6 b7
      else Char b0 b1 b2 b3 b4 b5 b6 b7)"
  unfolding lower_char_def is_upper_bits is_upper_latin1_bits by auto

lemma ci_eq_gt [simp]: "ci_eq c (CHR ''>'') \<longleftrightarrow> c = CHR ''>''"
  by (cases c) (auto simp add: ci_eq_def lower_char_bits split: if_splits)

lemma ci_eq_lt [simp]: "ci_eq c (CHR ''<'') \<longleftrightarrow> c = CHR ''<''"
  by (cases c) (auto simp add: ci_eq_def lower_char_bits split: if_splits)

lemma ci_eq_slash [simp]: "ci_eq c (CHR ''/'') \<longleftrightarrow> c = CHR ''/''"
  by (cases c) (auto simp add: ci_eq_def lower_char_bits split: if_splits)

lemma ci_eq_amp [simp]: "ci_eq c (CHR ''&'') \<longleftrightarrow> c = CHR ''&''"
  by (cases c) (auto simp add: ci_eq_def lower_char_bits split: if_splits)

lemma ci_eq_gt_left: "ci_eq (CHR ''>'') p \<longleftrightarrow> p = CHR ''>''"
  by (cases p) (auto simp add: ci_eq_def lower_char_bits split: if_splits)

section \<open>Every tag pattern matches inside a tag\<close>

lemma replace_with_absent: "\<not> anywhere rx s \<Longrightarrow> replace_with rx cb s = s"
proof (induction s)
  case Nil
  then have "rx [] = None" by (cases "rx []") auto
  then show ?case by (rule replace_with_Nil)
next
  case (Cons c cs)
  then have "rx (c # cs) = None" and "replace_with rx cb cs = cs"
    by (cases "rx (c # cs)"; auto)+
  then show ?case by (simp add: replace_with_None)
qed

lemma anywhere_mono:
  assumes "\<And>t. rx' t \<noteq> None \<Longrightarrow> rx t \<noteq> None"
  shows "\<not> anywhere rx s \<Longrightarrow> \<not> anywhere rx' s"
proof (induction s)
  case Nil
  then show ?case using assms [of "[]"] by (cases "rx' []"; cases "rx []"; auto)
next
  case (Cons c cs)
  then show ?case using assms [of "c # cs"] by (cases "rx' (c # cs)"; cases "rx (c # cs)"; auto)
qed

lemma any_tagI:
  "c \<noteq> CHR ''>'' \<Longrightarrow> CHR ''>'' \<in> set cs \<Longrightarrow> rx_any_tag (CHR ''<'' # c # cs) \<noteq> None"
  by (auto simp add: rx_any_tag_def not_gt_def dropWhile_eq_Nil_conv)

lemma lit_ci_Cons:
  "lit_ci (p # ps) s \<longleftrightarrow> (\<exists>c cs. s = c # cs \<and> ci_eq c p \<and> lit_ci ps cs)"
  by (cases s) auto

lemma lit_ci_gt_mem: "lit_ci ps cs \<Longrightarrow> CHR ''>'' \<in> set ps \<Longrightarrow> CHR ''>'' \<in> set cs"
  by (induction ps cs rule: lit_ci.induct) (auto split: if_splits)

lemma scan_lazy_Some:
  "scan_lazy d k s = Some (content, a, n) \<Longrightarrow>
   content = take (length content) s \<and> k (drop (length content) s) = Some (a, n)"
proof (induction s arbitrary: content)
  case Nil
  then show ?case by (auto split: option.splits)
next
  case (Cons c cs)
  show ?case
  proof (cases "k (c # cs)")
    case (Some r)
    with Cons.prems show ?thesis by (cases r) auto
  next
    case None
    with Cons.prems obtain content' where
      c': "scan_lazy d k cs = Some (content', a, n)" and "content = c # content'"
      by (auto split: if_splits option.splits)
    with Cons.IH [OF c'] show ?thesis by simp
  qed
qed

lemma rx_br_tag: "rx_br t \<noteq> None \<Longrightarrow> rx_any_tag t \<noteq> None"
proof -
  assume m: "rx_br t \<noteq> None"
  then have l: "lit_ci ''<br'' t" by (auto simp add: rx_br_def split: if_splits)
  then obtain c1 c2 c3 r where t: "t = c1 # c2 # c3 # r" and c1: "c1 = CHR ''<''"
    and c2: "ci_eq c2 (CHR ''b'')"
    by (auto simp add: lit_ci_Cons)
  from m l have "lit_ci ''/>'' (dropWhile is_ws r) \<or> lit_ci ''>'' (dropWhile is_ws r)"
    unfolding t by (auto simp add: rx_br_def Let_def split: if_splits)
  then have "CHR ''>'' \<in> set (dropWhile is_ws r)"
    using lit_ci_gt_mem [of "''/>''" "dropWhile is_ws r"] lit_ci_gt_mem [of "''>''" "dropWhile is_ws r"]
    by auto
  then have "CHR ''>'' \<in> set r" by (rule set_dropWhileD)
  moreover have "c2 \<noteq> CHR ''>''" using c2 by (auto simp add: ci_eq_gt_left)
  ultimately show ?thesis unfolding t c1 by (intro any_tagI) auto
qed

lemma lit_tag:
  assumes "lit_ci (CHR ''<'' # p # ps) t" "p \<noteq> CHR ''>''" "CHR ''>'' \<in> set ps"
  shows "rx_any_tag t \<noteq> None"
proof -
  from assms(1) obtain c cs where t: "t = CHR ''<'' # c # cs" and c: "ci_eq c p" and cs: "lit_ci ps cs"
    by (auto simp add: lit_ci_Cons)
  have "c \<noteq> CHR ''>''" using c assms(2) by (auto simp add: ci_eq_gt_left)
  moreover have "CHR ''>'' \<in> set cs" using cs assms(3) by (rule lit_ci_gt_mem)
  ultimately show ?thesis unfolding t by (rule any_tagI)
qed

lemma rx_close_hp_tag: "rx_close_hp t \<noteq> None \<Longrightarrow> rx_any_tag t \<noteq> None"
proof -
  assume m: "rx_close_hp t \<noteq> None"
  show ?thesis
  proof (cases "lit_ci ''</p>'' t")
    case True
    then show ?thesis by (rule lit_tag) simp_all
  next
    case False
    with m have l: "lit_ci ''</h'' t"
      and d: "(case drop 3 t of d # e # es \<Rightarrow> d \<in> set ''123456'' \<and> e = CHR ''>'' | _ \<Rightarrow> False)"
      by (auto simp add: rx_close_hp_def split: if_splits)
    from l obtain c3 r where t: "t = CHR ''<'' # CHR ''/'' # c3 # r"
      by (auto simp add: lit_ci_Cons)
    from d have "CHR ''>'' \<in> set r" unfolding t by (auto split: list.splits)
    then show ?thesis unfolding t by (intro any_tagI) auto
  qed
qed

lemma rx_open_close_tag:
  "t \<noteq> [] \<Longrightarrow> hd t \<noteq> CHR ''>'' \<Longrightarrow> rx_open_close t s \<noteq> None \<Longrightarrow> rx_any_tag s \<noteq> None"
proof -
  assume t: "t \<noteq> []" "hd t \<noteq> CHR ''>''" and m: "rx_open_close t s \<noteq> None"
  then obtain p ps where tp: "t = p # ps" by (cases t) auto
  from m have "lit_ci (''<'' @ t @ ''>'') s"
    by (auto simp add: rx_open_close_def split: if_splits)
  then have "lit_ci (CHR ''<'' # p # (ps @ ''>'')) s" unfolding tp by simp
  moreover have "p \<noteq> CHR ''>''" using t(2) unfolding tp by simp
  ultimately show ?thesis by (rule lit_tag) simp
qed

lemma rx_element_tag:
  "t \<noteq> [] \<Longrightarrow> hd t \<noteq> CHR ''>'' \<Longrightarrow> rx_element d t s \<noteq> None \<Longrightarrow> rx_any_tag s \<noteq> None"
proof -
  assume t: "t \<noteq> []" "hd t \<noteq> CHR ''>''" and m: "rx_element d t s \<noteq> None"
  then obtain p ps where tp: "t = p # ps" by (cases t) auto
  from m have "lit_ci (''<'' @ t @ ''>'') s"
    by (auto simp add: rx_element_def split: if_splits)
  then have "lit_ci (CHR ''<'' # p # (ps @ ''>'')) s" unfolding tp by simp
  moreover have "p \<noteq> CHR ''>''" using t(2) unfolding tp by simp
  ultimately show ?thesis by (rule lit_tag) simp
qed

lemma rx_bold_tag: "rx_bold s \<noteq> None \<Longrightarrow> rx_any_tag s \<noteq> None"
  using rx_open_close_tag [of "''b''" s] rx_open_close_tag [of "''strong''" s]
  by (auto simp add: rx_bold_def split: option.splits)

lemma rx_italic_tag: "rx_italic s \<noteq> None \<Longrightarrow> rx_any_tag s \<noteq> None"
  using rx_open_close_tag [of "''i''" s] rx_open_close_tag [of "''em''" s]
  by (auto simp add: rx_italic_def split: option.splits)

lemma rx_link_text_gt: "rx_link_text v \<noteq> None \<Longrightarrow> CHR ''>'' \<in> set v"
  by (auto simp add: rx_link_text_def split: list.splits if_splits)

lemma rx_link_attrs_gt: "rx_link_attrs u \<noteq> None \<Longrightarrow> CHR ''>'' \<in> set u"
proof -
  assume m: "rx_link_attrs u \<noteq> None"
  then obtain q rest skipped lt n where u: "u = q # rest"
    and sc: "scan_lazy False rx_link_text rest = Some (skipped, lt, n)"
    by (auto simp add: rx_link_attrs_def split: list.splits if_splits option.splits)
  from scan_lazy_Some [OF sc] have "rx_link_text (drop (length skipped) rest) \<noteq> None" by simp
  then have "CHR ''>'' \<in> set (drop (length skipped) rest)" by (rule rx_link_text_gt)
  then have "CHR ''>'' \<in> set rest" by (rule in_set_dropD)
  then show ?thesis unfolding u by simp
qed

lemma rx_link_tag: "rx_link s \<noteq> None \<Longrightarrow> rx_any_tag s \<noteq> None"
proof -
  assume m: "rx_link s \<noteq> None"
  then have l: "lit_ci ''<a'' s" by (auto simp add: rx_link_def split: if_splits)
  then obtain c2 r where s: "s = CHR ''<'' # c2 # r" and c2: "ci_eq c2 (CHR ''a'')"
    by (auto simp add: lit_ci_Cons)
  from m l obtain href lt n where
    sc: "scan_lazy False rx_link_attrs (drop 6 (dropWhile is_ws r)) = Some (href, lt, n)"
    unfolding s by (auto simp add: rx_link_def Let_def split: if_splits option.splits)
  from scan_lazy_Some [OF sc]
  have "rx_link_attrs (drop (length href) (drop 6 (dropWhile is_ws r))) \<noteq> None" by simp
  then have "CHR ''>'' \<in> set (drop (length href) (drop 6 (dropWhile is_ws r)))"
    by (rule rx_link_attrs_gt)
  then have "CHR ''>'' \<in> set (dropWhile is_ws r)"
    by (meson in_set_dropD)
  then have g: "CHR ''>'' \<in> set r" by (rule set_dropWhileD)
  have "c2 \<noteq> CHR ''>''" using c2 by (auto simp add: ci_eq_gt_left)
  then show ?thesis unfolding s using g by (rule any_tagI)
qed

lemma is_alnum_not_gt: "is_alnum c \<Longrightarrow> c \<noteq> CHR ''>''"
  by (auto simp add: is_alnum_def is_lower_def is_upper_def is_digit_def)

lemma rx_name_rest_gt:
  "rx_name_rest s \<noteq> None \<Longrightarrow> \<exists>c cs. s = c # cs \<and> c \<noteq> CHR ''>'' \<and> CHR ''>'' \<in> set cs"
proof -
  assume m: "rx_name_rest s \<noteq> None"
  then have n: "takeWhile is_alnum s \<noteq> []"
    and g: "dropWhile not_gt (dropWhile is_alnum s) \<noteq> []"
    by (auto simp add: rx_name_rest_def Let_def split: if_splits)
  from n obtain c cs where s: "s = c # cs" and c: "is_alnum c"
    by (cases s) (auto split: if_splits)
  from g obtain x where "x \<in> set (dropWhile is_alnum s)" "\<not> not_gt x"
    by (auto simp add: dropWhile_eq_Nil_conv)
  then have "CHR ''>'' \<in> set (dropWhile is_alnum s)" by (simp add: not_gt_def)
  then have "CHR ''>'' \<in> set s" by (rule set_dropWhileD)
  with c s show ?thesis using is_alnum_not_gt by auto
qed

lemma rx_named_tag_tag: "rx_named_tag s \<noteq> None \<Longrightarrow> rx_any_tag s \<noteq> None"
proof -
  assume m: "rx_named_tag s \<noteq> None"
  then obtain d ds where s: "s = CHR ''<'' # d # ds"
    by (auto simp add: rx_named_tag_def split: list.splits if_splits)
  show ?thesis
  proof (cases "d = CHR ''/''")
    case True
    with m have "rx_name_rest ds \<noteq> None"
      unfolding s by (auto simp add: rx_named_tag_def split: option.splits)
    from rx_name_rest_gt [OF this] have "CHR ''>'' \<in> set ds" by auto
    then show ?thesis unfolding s using True by (intro any_tagI) auto
  next
    case False
    with m have "rx_name_rest (d # ds) \<noteq> None"
      unfolding s by (auto simp add: rx_named_tag_def split: option.splits)
    from rx_name_rest_gt [OF this] have "d \<noteq> CHR ''>''" and "CHR ''>'' \<in> set ds" by auto
    then show ?thesis unfolding s by (rule any_tagI)
  qed
qed

section \<open>preserveFormat on a text without tags\<close>

lemma decode_entities_absent:
  assumes "\<not> anywhere (rx_lit ''&nbsp;'') s" "\<not> anywhere (rx_lit ''&amp;'') s"
    "\<not> anywhere (rx_lit ''&lt;'') s" "\<not> anywhere (rx_lit ''&gt;'') s"
  shows "decode_entities s = s"
  unfolding decode_entities_def using assms by (simp add: replace_with_absent)

lemma tag_passes_absent:
  assumes "\<not> anywhere rx_any_tag s"
  shows "pass_br ig s = s" "pass_headings ig s = s" "pass_bold ig s = s" "pass_italic ig s = s"
    "pass_links ig s = s" "pass_ol ig s = s" "pass_ul ig s = s" "pass_blockquote ig s = s"
    "pass_tables ig s = s" "pass_strip ig s = s"
proof -
  have n: "\<not> anywhere rx s" if "\<And>t. rx t \<noteq> None \<Longrightarrow> rx_any_tag t \<noteq> None"
    for rx :: "string \<Rightarrow> ('a \<times> nat) option"
    using that assms by (rule anywhere_mono)
  show "pass_br ig s = s"
    unfolding pass_br_def br_to_newline_def
    by (simp add: replace_with_absent n rx_br_tag)
  show "pass_headings ig s = s"
    unfolding pass_headings_def by (simp add: replace_with_absent n rx_close_hp_tag)
  show "pass_bold ig s = s"
    unfolding pass_bold_def by (simp add: replace_with_absent n rx_bold_tag)
  show "pass_italic ig s = s"
    unfolding pass_italic_def by (simp add: replace_with_absent n rx_italic_tag)
  show "pass_links ig s = s"
    unfolding pass_links_def by (simp add: replace_with_absent n rx_link_tag)
  have e: "\<not> anywhere (rx_element True t) s" if "t \<noteq> []" "hd t \<noteq> CHR ''>''" for t
    using that by (intro n rx_element_tag [of t]) auto
  show "pass_ol ig s = s"
    unfolding pass_ol_def by (simp add: replace_with_absent e)
  show "pass_ul ig s = s"
    unfolding pass_ul_def by (simp add: replace_with_absent e)
  show "pass_blockquote ig s = s"
    unfolding pass_blockquote_def by (simp add: replace_with_absent e)
  show "pass_tables ig s = s"
    unfolding pass_tables_def by (simp add: replace_with_absent e)
  show "pass_strip ig s = s"
    unfolding pass_strip_def by (simp add: replace_with_absent assms n rx_named_tag_tag)
qed

text \<open>
  Claim C9, as amended. For every text without tags, without whitespace between a
  \<open>>\<close> and a \<open><\<close> and without one of the entities \<open>&nbsp;\<close>, \<open>&amp;\<close>, \<open>&lt;\<close>,
  \<open>&gt;\<close> (in any letter case), and for every ignore list, \<open>preserveFormat\<close> returns the
  text with every run of three or more newlines collapsed to two and the whitespace at
  both ends trimmed, and changes nothing else.
\<close>

theorem preserveFormat_plain_text:
  "plain_text s \<Longrightarrow> preserveFormat s ig = trim (collapse_newlines s)"
proof -
  assume p: "plain_text s"
  then have t: "\<not> anywhere rx_any_tag s" by (simp add: plain_text_def)
  have sp: "pass_spaces s = s"
    unfolding pass_spaces_def using p by (simp add: plain_text_def replace_with_absent)
  have de: "decode_entities s = s"
    using p by (intro decode_entities_absent) (simp_all add: plain_text_def)
  show ?thesis
  proof (cases "s = []")
    case True
    then show ?thesis by (simp add: preserveFormat_def collapse_Nil trim_def)
  next
    case False
    then show ?thesis
      unfolding preserveFormat_def by (simp add: sp tag_passes_absent [OF t] de)
  qed
qed

theorem preserveFormat_plain_text_witness:
  "plain_text ''  a <> b & c\<newline>\<newline>\<newline>\<newline>d < e  '' \<and>
   preserveFormat ''  a <> b & c\<newline>\<newline>\<newline>\<newline>d < e  '' [''p''] = ''a <> b & c\<newline>\<newline>d < e''"
proof -
  have p: "plain_text ''  a <> b & c\<newline>\<newline>\<newline>\<newline>d < e  ''" by code_simp
  have "trim (collapse_newlines ''  a <> b & c\<newline>\<newline>\<newline>\<newline>d < e  '') = ''a <> b & c\<newline>\<newline>d < e''"
    by code_simp
  with preserveFormat_plain_text [OF p, of "[''p'']"] p show ?thesis by simp
qed

text \<open>
  The claim as the spec states it fails: a text that holds an entity, or whitespace between
  a \<open>>\<close> and a \<open><\<close>, has no tag and is changed beyond the newline collapse and the
  trim.
\<close>

theorem preserveFormat_plain_text_counterexample:
  "\<not> anywhere rx_any_tag ''a &amp; b'' \<and>
   preserveFormat ''a &amp; b'' [] = ''a & b'' \<and>
   trim (collapse_newlines ''a &amp; b'') = ''a &amp; b'' \<and>
   \<not> anywhere rx_any_tag ''a > < b'' \<and>
   preserveFormat ''a > < b'' [] = ''a >< b'' \<and>
   trim (collapse_newlines ''a > < b'') = ''a > < b''"
  by code_simp

section \<open>The ignore list and the case of its entries\<close>

lemma lower_char_idem [simp]: "lower_char (lower_char c) = lower_char c"
  by (cases c) (simp add: lower_char_bits)

lemma toLowerCase_idem [simp]: "toLowerCase (toLowerCase s) = toLowerCase s"
  by (simp add: toLowerCase_def)

lemma toLowerCase_literals [simp]:
  "toLowerCase ''br'' = ''br''" "toLowerCase ''a'' = ''a''" "toLowerCase ''ol'' = ''ol''"
  "toLowerCase ''ul'' = ''ul''" "toLowerCase ''li'' = ''li''"
  "toLowerCase ''blockquote'' = ''blockquote''" "toLowerCase ''table'' = ''table''"
  "toLowerCase ''tr'' = ''tr''" "toLowerCase ''td'' = ''td''" "toLowerCase ''th'' = ''th''"
  by code_simp+

lemma passes_same_lowercase:
  assumes "\<forall>x. toLowerCase x = x \<longrightarrow> (x \<in> set ig \<longleftrightarrow> x \<in> set ig')"
  shows "pass_br ig = pass_br ig'" "pass_headings ig = pass_headings ig'"
    "pass_bold ig = pass_bold ig'" "pass_italic ig = pass_italic ig'"
    "pass_links ig = pass_links ig'" "pass_ol ig = pass_ol ig'" "pass_ul ig = pass_ul ig'"
    "pass_blockquote ig = pass_blockquote ig'" "pass_tables ig = pass_tables ig'"
proof -
  have m: "\<And>x. toLowerCase x = x \<Longrightarrow> x \<in> set ig \<longleftrightarrow> x \<in> set ig'"
    using assms by blast
  show "pass_br ig = pass_br ig'"
    by (rule ext) (simp add: pass_br_def m cong: if_cong option.case_cong)
  show "pass_headings ig = pass_headings ig'"
    by (rule ext) (simp add: pass_headings_def m cong: if_cong option.case_cong)
  show "pass_bold ig = pass_bold ig'"
    by (rule ext) (simp add: pass_bold_def m cong: if_cong option.case_cong)
  show "pass_italic ig = pass_italic ig'"
    by (rule ext) (simp add: pass_italic_def m cong: if_cong option.case_cong)
  show "pass_links ig = pass_links ig'"
    by (rule ext) (simp add: pass_links_def m cong: if_cong option.case_cong)
  have li: "''li'' \<in> set ig \<longleftrightarrow> ''li'' \<in> set ig'" by (simp add: m)
  have ni: "number_items ig = number_items ig'"
    by (rule ext) (simp only: number_items_def li)
  show "pass_ol ig = pass_ol ig'"
    by (rule ext) (simp add: pass_ol_def m ni cong: if_cong option.case_cong)
  have bi: "bullet_items ig = bullet_items ig'"
    by (rule ext) (simp add: bullet_items_def m cong: if_cong option.case_cong)
  show "pass_ul ig = pass_ul ig'"
    by (rule ext) (simp add: pass_ul_def m bi cong: if_cong option.case_cong)
  show "pass_blockquote ig = pass_blockquote ig'"
    by (rule ext) (simp add: pass_blockquote_def m cong: if_cong option.case_cong)
  have tc: "table_cells ig = table_cells ig'"
    by (rule ext) (simp add: table_cells_def m cong: if_cong option.case_cong)
  have tr: "table_rows ig = table_rows ig'"
    by (rule ext) (simp add: table_rows_def m tc cong: if_cong option.case_cong)
  show "pass_tables ig = pass_tables ig'"
    by (rule ext) (simp add: pass_tables_def m tr cong: if_cong option.case_cong)
qed

lemma preserveFormat_same_lowercase:
  assumes "same_lowercase_entries ig ig'"
  shows "preserveFormat h ig = preserveFormat h ig'"
proof -
  have m: "\<forall>x. toLowerCase x = x \<longrightarrow> (x \<in> set ig \<longleftrightarrow> x \<in> set ig')"
    using assms by (simp add: same_lowercase_entries_def)
  have e: "ig = [] \<longleftrightarrow> ig' = []"
    using assms by (simp add: same_lowercase_entries_def)
  have st: "pass_strip ig = pass_strip ig'"
    by (rule ext) (simp add: pass_strip_def m e cong: if_cong option.case_cong)
  show ?thesis
    unfolding preserveFormat_def passes_same_lowercase [of ig ig', OF m] st ..
qed

lemma strip_tags_lowercases: "strip_tags ig h = strip_tags (map toLowerCase ig) h"
  by (simp add: strip_tags_def comp_def)

lemma non_lowercase_never_member:
  "list_all (\<lambda>e. toLowerCase e \<noteq> e) ig \<Longrightarrow> toLowerCase x \<notin> set ig"
proof
  assume a: "list_all (\<lambda>e. toLowerCase e \<noteq> e) ig" and "toLowerCase x \<in> set ig"
  then have "toLowerCase (toLowerCase x) \<noteq> toLowerCase x"
    unfolding list_all_iff by blast
  then show False by simp
qed

lemma before_strip_non_lowercase:
  assumes "list_all (\<lambda>e. toLowerCase e \<noteq> e) ig"
  shows "pass_tables ig (pass_blockquote ig (pass_ul ig (pass_ol ig (pass_links ig
           (pass_italic ig (pass_bold ig (pass_headings ig (pass_br ig s)))))))) =
         pass_tables [] (pass_blockquote [] (pass_ul [] (pass_ol [] (pass_links []
           (pass_italic [] (pass_bold [] (pass_headings [] (pass_br [] s))))))))"
proof -
  have m: "\<forall>x. toLowerCase x = x \<longrightarrow> (x \<in> set ig \<longleftrightarrow> x \<in> set [])"
    using non_lowercase_never_member [OF assms] by (metis empty_iff empty_set)
  show ?thesis
    unfolding passes_same_lowercase [of ig "[]", OF m] ..
qed

lemma pass_strip_non_lowercase:
  assumes "list_all (\<lambda>e. toLowerCase e \<noteq> e) ig" "ig \<noteq> []"
  shows "pass_strip ig s = replace_with rx_named_tag (\<lambda>match tag. []) s"
proof -
  have "\<And>tag. toLowerCase tag \<notin> set ig"
    using assms(1) by (rule non_lowercase_never_member)
  then show ?thesis using assms(2) by (simp add: pass_strip_def)
qed

section \<open>Blocks: an opening tag, a content and the closing tag\<close>

lemma ci_eq_refl [simp]: "ci_eq c c"
  by (simp add: ci_eq_def)

lemma ci_eq_lt_left: "ci_eq (CHR ''<'') p \<longleftrightarrow> p = CHR ''<''"
  by (cases p) (auto simp add: ci_eq_def lower_char_bits split: if_splits)

lemma lit_ci_before_lt:
  "lit_ci p (u @ CHR ''<'' # w) \<Longrightarrow> CHR ''<'' \<notin> set p \<Longrightarrow> lit_ci p u"
proof (induction p u rule: lit_ci.induct)
  case (1 s)
  then show ?case by simp
next
  case (2 p ps)
  then show ?case by (auto simp add: ci_eq_lt_left split: if_splits)
next
  case (3 p ps c cs)
  then show ?case by (auto split: if_splits)
qed

lemma lit_ci_no_straddle:
  assumes "\<not> lit_ci (CHR ''<'' # q) u" "u \<noteq> []" "CHR ''<'' \<notin> set q"
  shows "\<not> lit_ci (CHR ''<'' # q) (u @ CHR ''<'' # w)"
proof
  assume l: "lit_ci (CHR ''<'' # q) (u @ CHR ''<'' # w)"
  from assms(2) obtain x xs where u: "u = x # xs" by (cases u) auto
  from l have "ci_eq x (CHR ''<'')" and "lit_ci q (xs @ CHR ''<'' # w)"
    unfolding u by (auto split: if_splits)
  then have "lit_ci (CHR ''<'' # q) u"
    unfolding u using lit_ci_before_lt [OF _ assms(3)] by auto
  with assms(1) show False by simp
qed

lemma lacks_Nil [simp]: "lacks (p # ps) []"
  by (simp add: lacks_def rx_lit_def)

lemma lacks_Cons: "lacks p (c # cs) \<longleftrightarrow> \<not> lit_ci p (c # cs) \<and> lacks p cs"
  by (simp add: lacks_def rx_lit_def)

lemma lit_ci_append: "lit_ci p s \<Longrightarrow> lit_ci p (s @ r)"
  by (induction p s rule: lit_ci.induct) (auto split: if_splits)

lemma lit_ci_lt_Cons: "lit_ci (CHR ''<'' # q) s \<Longrightarrow> \<exists>r. s = CHR ''<'' # r"
  by (cases s) (auto split: if_splits)

lemma rx_element_no_open: "\<not> lit_ci (''<'' @ t @ ''>'') s \<Longrightarrow> rx_element d t s = None"
  by (simp add: rx_element_def)

lemma replace_with_skip:
  assumes "\<And>s. \<not> lit_ci (CHR ''<'' # q) s \<Longrightarrow> rx s = None"
    "CHR ''<'' \<notin> set q" "lacks (CHR ''<'' # q) pre"
  shows "replace_with rx cb (pre @ CHR ''<'' # w) = pre @ replace_with rx cb (CHR ''<'' # w)"
  using assms(3)
proof (induction pre)
  case Nil
  then show ?case by simp
next
  case (Cons x xs)
  then have a: "\<not> lit_ci (CHR ''<'' # q) (x # xs)" and b: "lacks (CHR ''<'' # q) xs"
    by (simp_all add: lacks_Cons)
  have "\<not> lit_ci (CHR ''<'' # q) ((x # xs) @ CHR ''<'' # w)"
    using a assms(2) by (intro lit_ci_no_straddle) simp_all
  then have "rx (x # (xs @ CHR ''<'' # w)) = None" using assms(1) by simp
  then show ?case using Cons.IH [OF b] by (simp add: replace_with_None)
qed

lemma scan_lazy_close_ci:
  assumes "lacks (CHR ''<'' # q) c" "CHR ''<'' \<notin> set q" "dotall \<or> single_line c"
    "lit_ci (CHR ''<'' # q) ct"
  shows "scan_lazy dotall (rx_lit (CHR ''<'' # q)) (c @ ct @ rest) = Some (c, (), Suc (length q))"
proof -
  from assms(4) obtain r where ct: "ct = CHR ''<'' # r" using lit_ci_lt_Cons by blast
  have m: "rx_lit (CHR ''<'' # q) (ct @ rest) = Some ((), Suc (length q))"
    unfolding rx_lit_def using lit_ci_append [OF assms(4), of rest] by simp
  show ?thesis
    using assms(1,3)
  proof (induction c)
    case Nil
    then show ?case using m unfolding ct by simp
  next
    case (Cons x xs)
    from Cons.prems(1) have a: "\<not> lit_ci (CHR ''<'' # q) (x # xs)" and b: "lacks (CHR ''<'' # q) xs"
      by (simp_all add: lacks_Cons)
    have "\<not> lit_ci (CHR ''<'' # q) ((x # xs) @ CHR ''<'' # (r @ rest))"
      using a assms(2) by (intro lit_ci_no_straddle) simp_all
    then have n: "rx_lit (CHR ''<'' # q) (x # xs @ ct @ rest) = None"
      unfolding ct by (simp add: rx_lit_def)
    have d: "dotall \<or> \<not> is_line_terminator x" and d': "dotall \<or> single_line xs"
      using Cons.prems(2) by (auto simp add: single_line_def)
    have ih: "scan_lazy dotall (rx_lit (CHR ''<'' # q)) (xs @ ct @ rest) = Some (xs, (), Suc (length q))"
      using Cons.IH [OF b d'] .
    show ?case using n d ih by simp
  qed
qed

lemma rx_element_block_ci:
  assumes "CHR ''<'' \<notin> set t" "opens t ot" "closes t ct" "lacks (''</'' @ t @ ''>'') c"
    "dotall \<or> single_line c"
  shows "rx_element dotall t (ot @ c @ ct @ rest) = Some (c, length (ot @ c @ ct))"
proof -
  from assms(2) have o: "lit_ci (''<'' @ t @ ''>'') (ot @ c @ ct @ rest)" and lo: "length ot = length t + 2"
    using lit_ci_append by (simp_all add: opens_def)
  from assms(3) have k: "lit_ci (CHR ''<'' # (''/'' @ t @ ''>'')) ct" and lk: "length ct = length t + 3"
    by (simp_all add: closes_def)
  have d: "drop (length t + 2) (ot @ c @ ct @ rest) = c @ ct @ rest"
    using lo by simp
  have s: "scan_lazy dotall (rx_lit (CHR ''<'' # (''/'' @ t @ ''>''))) (c @ ct @ rest) =
           Some (c, (), Suc (length (''/'' @ t @ ''>'')))"
    using assms(1,4,5) k by (intro scan_lazy_close_ci) simp_all
  show ?thesis
    unfolding rx_element_def using o s lo lk by (simp only: d if_True) simp
qed

lemma opens_ne: "opens t ot \<Longrightarrow> \<exists>r. ot = CHR ''<'' # r"
  unfolding opens_def using lit_ci_lt_Cons [of "t @ ''>''" ot] by simp

lemma replace_with_block:
  assumes "rx (b @ rest) = Some (caps, length b)" "b \<noteq> []"
  shows "replace_with rx cb (b @ rest) = cb b caps @ replace_with rx cb rest"
proof -
  from assms(2) obtain c cs where b: "b = c # cs" by (cases b) auto
  have "rx (c # (cs @ rest)) = Some (caps, Suc (length cs))"
    using assms(1) unfolding b by simp
  from replace_with_Some [of rx c "cs @ rest" caps "length cs" cb, OF this]
  show ?thesis unfolding b by simp
qed

lemma replace_with_zero:
  "rx (c # cs) = Some (caps, 0) \<Longrightarrow>
   replace_with rx cb (c # cs) = cb [] caps @ c # replace_with rx cb cs"
  by (simp add: replace_with_def)

lemma replace_with_identity: "replace_with rx (\<lambda>match caps. match) s = s"
proof (induction s rule: length_induct)
  case (1 s)
  show ?case
  proof (cases s)
    case Nil
    then show ?thesis by (cases "rx []") (auto simp add: replace_with_def)
  next
    case (Cons c cs)
    show ?thesis
    proof (cases "rx (c # cs)")
      case None
      then show ?thesis using 1 Cons by (simp add: replace_with_None)
    next
      case (Some r)
      obtain caps n where r: "r = (caps, n)" by (cases r)
      show ?thesis
      proof (cases n)
        case 0
        with Some r 1 Cons show ?thesis by (simp add: replace_with_zero)
      next
        case (Suc j)
        have "length (drop j cs) < length s" unfolding Cons by simp
        with 1 have "replace_with rx (\<lambda>match caps. match) (drop j cs) = drop j cs" by blast
        with Some r Suc Cons show ?thesis by (simp add: replace_with_Some)
      qed
    qed
  qed
qed

lemma replace_with_blocks:
  assumes "CHR ''<'' \<notin> set t" "list_all (wf_block dotall t) doc"
    "\<not> anywhere (rx_element dotall t) fin"
  shows "replace_with (rx_element dotall t) cb (concat (map render_block doc) @ fin) =
         concat (map (\<lambda>(pre, ot, c, ct). pre @ cb (ot @ c @ ct) c) doc) @ fin"
  using assms(2)
proof (induction doc)
  case Nil
  have "replace_with (rx_element dotall t) cb fin = fin"
    using assms(3) by (rule replace_with_absent)
  then show ?case by simp
next
  case (Cons b doc)
  obtain pre ot c ct where b: "b = (pre, ot, c, ct)" by (cases b)
  from Cons.prems have p: "lacks (CHR ''<'' # (t @ ''>'')) pre" and o: "opens t ot" and k: "closes t ct"
    and c: "lacks (''</'' @ t @ ''>'') c" and d: "dotall \<or> single_line c"
    and r: "list_all (wf_block dotall t) doc"
    unfolding b by simp_all
  let ?rest = "concat (map render_block doc) @ fin"
  from o obtain r' where ot: "ot = CHR ''<'' # r'" using opens_ne by blast
  have n: "\<And>s. \<not> lit_ci (CHR ''<'' # (t @ ''>'')) s \<Longrightarrow> rx_element dotall t s = None"
    using rx_element_no_open [of t] by simp
  have s1: "replace_with (rx_element dotall t) cb (pre @ CHR ''<'' # (r' @ c @ ct @ ?rest)) =
            pre @ replace_with (rx_element dotall t) cb (CHR ''<'' # (r' @ c @ ct @ ?rest))"
    using n assms(1) p by (intro replace_with_skip [of "t @ ''>''"]) simp_all
  have m: "rx_element dotall t ((ot @ c @ ct) @ ?rest) = Some (c, length (ot @ c @ ct))"
    using rx_element_block_ci [OF assms(1) o k c d, of ?rest] by simp
  have ne: "ot @ c @ ct \<noteq> []" unfolding ot by simp
  have s2: "replace_with (rx_element dotall t) cb ((ot @ c @ ct) @ ?rest) =
            cb (ot @ c @ ct) c @ replace_with (rx_element dotall t) cb ?rest"
    using m ne by (rule replace_with_block)
  show ?case
    unfolding b using s1 s2 Cons.IH [OF r] unfolding ot by simp
qed

lemma replace_all_st_block:
  assumes "m st (b @ rest) = Some ((r, st'), length b)" "b \<noteq> []"
  shows "replace_all_st m st (b @ rest) = r @ replace_all_st m st' rest"
proof -
  from assms(2) obtain c cs where b: "b = c # cs" by (cases b) auto
  have "m st (c # (cs @ rest)) = Some ((r, st'), Suc (length cs))"
    using assms(1) unfolding b by simp
  then show ?thesis unfolding b by simp
qed

lemma replace_all_st_skip:
  assumes "\<And>st s. \<not> lit_ci (CHR ''<'' # q) s \<Longrightarrow> m st s = None"
    "CHR ''<'' \<notin> set q" "lacks (CHR ''<'' # q) pre"
  shows "replace_all_st m st (pre @ CHR ''<'' # w) = pre @ replace_all_st m st (CHR ''<'' # w)"
  using assms(3)
proof (induction pre)
  case Nil
  then show ?case by simp
next
  case (Cons x xs)
  then have a: "\<not> lit_ci (CHR ''<'' # q) (x # xs)" and b: "lacks (CHR ''<'' # q) xs"
    by (simp_all add: lacks_Cons)
  have "\<not> lit_ci (CHR ''<'' # q) ((x # xs) @ CHR ''<'' # w)"
    using a assms(2) by (intro lit_ci_no_straddle) simp_all
  then have "m st (x # (xs @ CHR ''<'' # w)) = None" using assms(1) by simp
  then show ?case using Cons.IH [OF b] by simp
qed

lemma replace_all_st_identity:
  assumes "\<And>st s r st' n. m st s = Some ((r, st'), n) \<Longrightarrow> r = take n s"
  shows "replace_all_st m st s = s"
proof (induction s arbitrary: st rule: length_induct)
  case (1 s)
  show ?case
  proof (cases s)
    case Nil
    show ?thesis
    proof (cases "m st []")
      case None
      then show ?thesis using Nil by simp
    next
      case (Some a)
      obtain r st' n where a: "a = ((r, st'), n)" by (cases a) auto
      from assms [of st "[]" r st' n] Some a have "r = []" by simp
      then show ?thesis using Nil Some a by simp
    qed
  next
    case (Cons c cs)
    show ?thesis
    proof (cases "m st (c # cs)")
      case None
      then show ?thesis using 1 Cons by simp
    next
      case (Some a)
      obtain r st' n where a: "a = ((r, st'), n)" by (cases a) auto
      from assms [of st "c # cs" r st' n] Some a have r: "r = take n (c # cs)" by simp
      show ?thesis
      proof (cases n)
        case 0
        then show ?thesis using 1 Cons Some a r by simp
      next
        case (Suc j)
        have "length (drop j cs) < length s" unfolding Cons by simp
        with 1 have "replace_all_st m st' (drop j cs) = drop j cs" by blast
        then show ?thesis using Cons Some a r Suc by simp
      qed
    qed
  qed
qed

lemma replace_all_st_absent:
  assumes "\<And>st s. rx s = None \<Longrightarrow> m st s = None" "\<not> anywhere rx s"
  shows "replace_all_st m st s = s"
  using assms(2)
proof (induction s)
  case Nil
  then have "rx [] = None" by (cases "rx []") auto
  then have "m st [] = None" by (rule assms(1))
  then show ?case by simp
next
  case (Cons c cs)
  then have "rx (c # cs) = None" and ih: "replace_all_st m st cs = cs"
    by (cases "rx (c # cs)"; auto)+
  then have "m st (c # cs) = None" using assms(1) by blast
  then show ?case using ih by simp
qed

section \<open>Documents of text pieces and tags\<close>

lemma takeWhile_upto: "list_all P xs \<Longrightarrow> \<not> P y \<Longrightarrow> takeWhile P (xs @ y # ys) = xs"
  by (induction xs) simp_all

lemma dropWhile_upto: "list_all P xs \<Longrightarrow> \<not> P y \<Longrightarrow> dropWhile P (xs @ y # ys) = y # ys"
  by (induction xs) simp_all

lemma is_name_char_not_gt: "is_name_char c \<Longrightarrow> not_gt c"
  by (auto simp add: is_name_char_def not_gt_def is_lower_def is_upper_def is_digit_def)

lemma is_name_char_not_slash: "is_letter c \<Longrightarrow> c \<noteq> CHR ''/''"
  by (auto simp add: is_letter_def is_lower_def is_upper_def)

lemma not_word_gt: "\<not> is_word_char (CHR ''>'')" "\<not> is_name_char (CHR ''>'')"
  by (auto simp add: is_word_char_def is_name_char_def is_lower_def is_upper_def is_digit_def)

lemma is_alnum_word: "is_alnum c \<Longrightarrow> is_word_char c"
  unfolding is_alnum_def is_word_char_def by blast

lemma tag_inner_not_gt:
  assumes "wf_token (Tag closing name attrs)"
  shows "list_all not_gt ((if closing then ''/'' else []) @ name @ attrs)"
proof -
  from assms have "list_all is_name_char name" and "CHR ''>'' \<notin> set attrs" by simp_all
  then have "list_all not_gt name" and "list_all not_gt attrs"
    using is_name_char_not_gt by (auto simp add: list_all_iff not_gt_def)
  then show ?thesis by (simp add: not_gt_def)
qed

lemma rx_any_tag_render:
  assumes "wf_token (Tag closing name attrs)"
  shows "rx_any_tag (render (Tag closing name attrs) @ rest) =
         Some ((), length (render (Tag closing name attrs)))"
proof -
  let ?inner = "(if closing then ''/'' else []) @ name @ attrs"
  have i: "list_all not_gt ?inner" using assms by (rule tag_inner_not_gt)
  have g: "\<not> not_gt (CHR ''>'')" by (simp add: not_gt_def)
  have ne: "?inner \<noteq> []" using assms by simp
  have r: "render (Tag closing name attrs) @ rest = CHR ''<'' # (?inner @ CHR ''>'' # rest)"
    by simp
  have t: "takeWhile not_gt (?inner @ CHR ''>'' # rest) = ?inner"
    using i g by (rule takeWhile_upto)
  have d: "dropWhile not_gt (?inner @ CHR ''>'' # rest) = CHR ''>'' # rest"
    using i g by (rule dropWhile_upto)
  have "rx_any_tag (CHR ''<'' # (?inner @ CHR ''>'' # rest)) = Some ((), length ?inner + 2)"
    unfolding rx_any_tag_def list.case t d using ne by simp
  then show ?thesis unfolding r by simp
qed

lemma scan_greedy_run:
  assumes "list_all P xs" "case rest of [] \<Rightarrow> True | y # ys \<Rightarrow> \<not> P y" "k (acc @ xs) rest = Some r"
  shows "scan_greedy P k acc (xs @ rest) = Some r"
  using assms
proof (induction xs arbitrary: acc)
  case Nil
  then show ?case by (cases rest) simp_all
next
  case (Cons x xs)
  then have "scan_greedy P k (acc @ [x]) (xs @ rest) = Some r" by simp
  with Cons.prems(1) show ?case by simp
qed

lemma rx_word_name_render:
  assumes "wf_token (Tag closing name attrs)"
  shows "rx_word_name (name @ attrs @ CHR ''>'' # rest) =
         Some (name, length name + length attrs + 1)"
proof -
  from assms obtain c cs where name: "name = c # cs" and c: "is_letter c"
    by (cases name) auto
  from assms have cs: "list_all is_name_char cs" and l: "is_alnum (last (c # cs))"
    and a: "CHR ''>'' \<notin> set attrs"
    and h: "case attrs of [] \<Rightarrow> True | a # as \<Rightarrow> \<not> is_name_char a \<and> \<not> is_word_char a"
    unfolding name by simp_all
  let ?rest = "attrs @ CHR ''>'' # rest"
  let ?k = "\<lambda>acc rest.
                 if word_boundary (last (c # acc)) rest then
                   (case rx_to_gt rest of
                      None \<Rightarrow> None
                    | Some n \<Rightarrow> Some (c # acc, 1 + length acc + n))
                 else None"
  have h1: "case ?rest of [] \<Rightarrow> True | y # ys \<Rightarrow> \<not> is_name_char y"
    using h not_word_gt by (cases attrs) simp_all
  have wb: "word_boundary (last (c # cs)) ?rest"
    using h l is_alnum_word [OF l] not_word_gt by (cases attrs) (simp_all add: word_boundary_def)
  have "list_all not_gt attrs" using a unfolding list_all_iff not_gt_def by blast
  then have gt: "rx_to_gt ?rest = Some (length attrs + 1)"
    unfolding rx_to_gt_def
    using takeWhile_upto [of not_gt attrs "CHR ''>''" rest] dropWhile_upto [of not_gt attrs "CHR ''>''" rest]
    by (simp add: not_gt_def)
  have k: "?k ([] @ cs) ?rest = Some (c # cs, 1 + length cs + (length attrs + 1))"
    using wb gt by simp
  have "scan_greedy is_name_char ?k [] (cs @ ?rest) = Some (c # cs, 1 + length cs + (length attrs + 1))"
    using cs h1 k by (rule scan_greedy_run)
  then show ?thesis
    unfolding name rx_word_name_def using c by simp
qed

lemma rx_word_tag_render:
  assumes "wf_token (Tag closing name attrs)"
  shows "rx_word_tag (render (Tag closing name attrs) @ rest) =
         Some (name, length (render (Tag closing name attrs)))"
proof (cases closing)
  case True
  then show ?thesis
    using rx_word_name_render [OF assms, of rest] by (simp add: rx_word_tag_def)
next
  case False
  from assms obtain c cs where name: "name = c # cs" and c: "is_letter c"
    by (cases name) auto
  have "c \<noteq> CHR ''/''" using c by (rule is_name_char_not_slash)
  then show ?thesis
    using False rx_word_name_render [OF assms, of rest] unfolding name
    by (simp add: rx_word_tag_def)
qed

lemma replace_with_text:
  assumes "\<And>c cs. c \<noteq> CHR ''<'' \<Longrightarrow> rx (c # cs) = None" "CHR ''<'' \<notin> set s"
  shows "replace_with rx cb (s @ rest) = s @ replace_with rx cb rest"
  using assms(2)
proof (induction s)
  case Nil
  then show ?case by simp
next
  case (Cons x xs)
  then have "x \<noteq> CHR ''<''" and xs: "CHR ''<'' \<notin> set xs" by auto
  then have "rx (x # (xs @ rest)) = None" using assms(1) by blast
  then show ?case using Cons.IH [OF xs] by (simp add: replace_with_None)
qed

lemma replace_with_tokens:
  assumes "\<And>c cs. c \<noteq> CHR ''<'' \<Longrightarrow> rx (c # cs) = None" "rx [] = None"
    "\<And>closing name attrs rest. ok (Tag closing name attrs) \<Longrightarrow>
       rx (render (Tag closing name attrs) @ rest) =
         Some (cap name, length (render (Tag closing name attrs)))"
    "\<And>s. ok (Text s) \<Longrightarrow> CHR ''<'' \<notin> set s"
    "list_all ok doc"
  shows "replace_with rx (\<lambda>match tag. if keep tag then match else []) (concat (map render doc)) =
         concat (map render
           (filter (\<lambda>t. case t of Text s \<Rightarrow> True | Tag closing name attrs \<Rightarrow> keep (cap name)) doc))"
  using assms(5)
proof (induction doc)
  case Nil
  then show ?case using assms(2) by (simp add: replace_with_Nil)
next
  case (Cons t doc)
  then have ok: "ok t" and ih: "replace_with rx (\<lambda>match tag. if keep tag then match else [])
       (concat (map render doc)) =
       concat (map render
         (filter (\<lambda>t. case t of Text s \<Rightarrow> True | Tag closing name attrs \<Rightarrow> keep (cap name)) doc))"
    by simp_all
  show ?case
  proof (cases t)
    case (Text s)
    then have "CHR ''<'' \<notin> set s" using ok assms(4) by blast
    then show ?thesis using Text ih replace_with_text [of rx s, OF assms(1)] by simp
  next
    case (Tag closing name attrs)
    have ne: "render (Tag closing name attrs) \<noteq> []" by simp
    have m: "rx (render (Tag closing name attrs) @ concat (map render doc)) =
             Some (cap name, length (render (Tag closing name attrs)))"
      using ok unfolding Tag by (rule assms(3))
    show ?thesis
      unfolding Tag
      using ih replace_with_block [where rx = rx and b = "render (Tag closing name attrs)"
          and rest = "concat (map render doc)", OF m ne]
      by simp
  qed
qed

lemma rx_any_tag_head: "c \<noteq> CHR ''<'' \<Longrightarrow> rx_any_tag (c # cs) = None"
  by (simp add: rx_any_tag_def)

lemma rx_word_tag_head: "c \<noteq> CHR ''<'' \<Longrightarrow> rx_word_tag (c # cs) = None"
  by (simp add: rx_word_tag_def)

lemma strip_tags_doc:
  assumes "list_all wf_token doc"
  shows "strip_tags ig (concat (map render doc)) = trim (concat (map render (filter (kept ig) doc)))"
proof (cases "ig = []")
  case True
  have k: "(\<lambda>t. case t of Text s \<Rightarrow> True | Tag closing name attrs \<Rightarrow> False) = kept []"
    by (rule ext) (simp split: token.splits)
  have "replace_with rx_any_tag (\<lambda>match tag. if False then match else []) (concat (map render doc)) =
        concat (map render (filter (kept []) doc))"
    using replace_with_tokens [of rx_any_tag wf_token "\<lambda>name. ()" doc "\<lambda>u. False",
        OF rx_any_tag_head _ rx_any_tag_render _ assms]
    unfolding k by (simp add: rx_any_tag_def)
  then show ?thesis using True by (simp add: strip_tags_def)
next
  case False
  have k: "(\<lambda>t. case t of Text s \<Rightarrow> True
             | Tag closing name attrs \<Rightarrow> toLowerCase name \<in> set (map toLowerCase ig)) = kept ig"
    by (rule ext) (simp split: token.splits)
  have "replace_with rx_word_tag
          (\<lambda>match tag. if toLowerCase tag \<in> set (map toLowerCase ig) then match else [])
          (concat (map render doc)) =
        concat (map render (filter (kept ig) doc))"
    using replace_with_tokens [of rx_word_tag wf_token "\<lambda>name. name" doc
        "\<lambda>tag. toLowerCase tag \<in> set (map toLowerCase ig)",
        OF rx_word_tag_head _ rx_word_tag_render _ assms]
    unfolding k by (simp add: rx_word_tag_def)
  then show ?thesis using False by (simp add: strip_tags_def Let_def)
qed

lemma scan_greedy_Some:
  "scan_greedy P k acc s = Some r \<Longrightarrow> \<exists>u v. s = u @ v \<and> k (acc @ u) v = Some r"
proof (induction s arbitrary: acc)
  case Nil
  then show ?case by simp
next
  case (Cons x xs)
  show ?case
  proof (cases "P x \<and> scan_greedy P k (acc @ [x]) xs \<noteq> None")
    case True
    with Cons.prems have "scan_greedy P k (acc @ [x]) xs = Some r" by auto
    from Cons.IH [OF this] obtain u v where "xs = u @ v" "k ((acc @ [x]) @ u) v = Some r" by blast
    then have "x # xs = (x # u) @ v \<and> k (acc @ (x # u)) v = Some r" by simp
    then show ?thesis by blast
  next
    case False
    with Cons.prems have "k acc (x # xs) = Some r" by (auto split: if_splits option.splits)
    then have "x # xs = [] @ (x # xs) \<and> k (acc @ []) (x # xs) = Some r" by simp
    then show ?thesis by blast
  qed
qed

lemma rx_to_gt_mem: "rx_to_gt v \<noteq> None \<Longrightarrow> CHR ''>'' \<in> set v"
proof -
  assume "rx_to_gt v \<noteq> None"
  then have "dropWhile not_gt v \<noteq> []" by (simp add: rx_to_gt_def split: if_splits)
  then obtain x where "x \<in> set v" "\<not> not_gt x" by (auto simp add: dropWhile_eq_Nil_conv)
  then show ?thesis by (simp add: not_gt_def)
qed

lemma rx_word_name_gt:
  "rx_word_name t \<noteq> None \<Longrightarrow> \<exists>c cs. t = c # cs \<and> c \<noteq> CHR ''>'' \<and> CHR ''>'' \<in> set cs"
proof -
  assume m: "rx_word_name t \<noteq> None"
  then obtain c cs where t: "t = c # cs" and c: "is_letter c"
    by (cases t) (auto simp add: rx_word_name_def split: if_splits)
  from m obtain r where "scan_greedy is_name_char
              (\<lambda>acc rest.
                 if word_boundary (last (c # acc)) rest then
                   (case rx_to_gt rest of
                      None \<Rightarrow> None
                    | Some n \<Rightarrow> Some (c # acc, 1 + length acc + n))
                 else None)
              [] cs = Some r"
    unfolding t rx_word_name_def using c by auto
  from scan_greedy_Some [OF this] obtain u v where uv: "cs = u @ v" and "rx_to_gt v \<noteq> None"
    by (auto split: if_splits option.splits)
  then have "CHR ''>'' \<in> set cs" using rx_to_gt_mem by auto
  moreover have "c \<noteq> CHR ''>''" using c by (auto simp add: is_letter_def is_lower_def is_upper_def)
  ultimately show ?thesis using t by blast
qed

lemma rx_word_tag_tag: "rx_word_tag s \<noteq> None \<Longrightarrow> rx_any_tag s \<noteq> None"
proof -
  assume m: "rx_word_tag s \<noteq> None"
  then obtain d ds where s: "s = CHR ''<'' # d # ds"
    by (cases s) (auto simp add: rx_word_tag_def rx_word_name_def split: list.splits if_splits option.splits)
  from m have "(d = CHR ''/'' \<and> rx_word_name ds \<noteq> None) \<or> rx_word_name (d # ds) \<noteq> None"
    unfolding s by (auto simp add: rx_word_tag_def split: if_splits option.splits)
  then show ?thesis
  proof
    assume a: "d = CHR ''/'' \<and> rx_word_name ds \<noteq> None"
    then have "CHR ''>'' \<in> set ds" using rx_word_name_gt [of ds] by auto
    moreover have "d \<noteq> CHR ''>''" using a by simp
    ultimately show ?thesis unfolding s using any_tagI by blast
  next
    assume "rx_word_name (d # ds) \<noteq> None"
    from rx_word_name_gt [OF this] have "d \<noteq> CHR ''>''" "CHR ''>'' \<in> set ds" by auto
    then show ?thesis unfolding s by (rule any_tagI)
  qed
qed

lemma strip_tags_no_tag: "\<not> anywhere rx_any_tag s \<Longrightarrow> strip_tags ig s = trim s"
proof -
  assume a: "\<not> anywhere rx_any_tag s"
  have "\<not> anywhere rx_word_tag s"
    using rx_word_tag_tag a by (rule anywhere_mono)
  then show ?thesis using a by (simp add: strip_tags_def Let_def replace_with_absent)
qed

lemma strip_tags_Nil: "strip_tags ig [] = []"
  by (simp add: strip_tags_def Let_def replace_with_def rx_any_tag_def rx_word_tag_def trim_def)

lemma rx_any_tag_any:
  assumes "wf_any (Tag closing name attrs)"
  shows "rx_any_tag (render (Tag closing name attrs) @ rest) =
         Some ((), length (render (Tag closing name attrs)))"
proof -
  let ?inner = "(if closing then ''/'' else []) @ name @ attrs"
  from assms have "CHR ''>'' \<notin> set name" and "CHR ''>'' \<notin> set attrs" by simp_all
  then have "list_all not_gt name" and "list_all not_gt attrs"
    by (auto simp add: list_all_iff not_gt_def)
  then have i: "list_all not_gt ?inner" by (simp add: not_gt_def)
  have g: "\<not> not_gt (CHR ''>'')" by (simp add: not_gt_def)
  have ne: "?inner \<noteq> []" using assms by auto
  have r: "render (Tag closing name attrs) @ rest = CHR ''<'' # (?inner @ CHR ''>'' # rest)"
    by simp
  have t: "takeWhile not_gt (?inner @ CHR ''>'' # rest) = ?inner"
    using i g by (rule takeWhile_upto)
  have d: "dropWhile not_gt (?inner @ CHR ''>'' # rest) = CHR ''>'' # rest"
    using i g by (rule dropWhile_upto)
  have "rx_any_tag (CHR ''<'' # (?inner @ CHR ''>'' # rest)) = Some ((), length ?inner + 2)"
    unfolding rx_any_tag_def list.case t d using ne by simp
  then show ?thesis unfolding r by simp
qed

lemma strip_tags_any_doc:
  assumes "list_all wf_any doc"
  shows "strip_tags [] (concat (map render doc)) = trim (concat (map render (filter (kept []) doc)))"
proof -
  have k: "(\<lambda>t. case t of Text s \<Rightarrow> True | Tag closing name attrs \<Rightarrow> False) = kept []"
    by (rule ext) (simp split: token.splits)
  have "replace_with rx_any_tag (\<lambda>match tag. if False then match else []) (concat (map render doc)) =
        concat (map render (filter (kept []) doc))"
    using replace_with_tokens [of rx_any_tag wf_any "\<lambda>name. ()" doc "\<lambda>u. False",
        OF rx_any_tag_head _ rx_any_tag_any _ assms]
    unfolding k by (simp add: rx_any_tag_def)
  then show ?thesis by (simp add: strip_tags_def)
qed

lemma is_alnum_not_slash: "is_alnum c \<Longrightarrow> c \<noteq> CHR ''/''"
  by (auto simp add: is_alnum_def is_lower_def is_upper_def is_digit_def)

lemma not_alnum_gt: "\<not> is_alnum (CHR ''>'')"
  by (auto simp add: is_alnum_def is_lower_def is_upper_def is_digit_def)

lemma rx_name_rest_render:
  assumes "wf_named (Tag closing name attrs)"
  shows "rx_name_rest (name @ attrs @ CHR ''>'' # rest) = Some (name, length name + length attrs + 1)"
proof -
  from assms have ne: "name \<noteq> []" and n: "list_all is_alnum name" and a: "CHR ''>'' \<notin> set attrs"
    and h: "case attrs of [] \<Rightarrow> True | a # as \<Rightarrow> \<not> is_alnum a"
    by simp_all
  obtain y ys where y: "attrs @ CHR ''>'' # rest = y # ys" and ny: "\<not> is_alnum y"
    using h not_alnum_gt by (cases attrs) auto
  have t: "takeWhile is_alnum (name @ attrs @ CHR ''>'' # rest) = name"
    unfolding y using n ny by (rule takeWhile_upto)
  have d: "dropWhile is_alnum (name @ attrs @ CHR ''>'' # rest) = attrs @ CHR ''>'' # rest"
    unfolding y using n ny by (rule dropWhile_upto)
  have g: "list_all not_gt attrs" using a unfolding list_all_iff not_gt_def by blast
  have g': "\<not> not_gt (CHR ''>'')" by (simp add: not_gt_def)
  have t2: "takeWhile not_gt (attrs @ CHR ''>'' # rest) = attrs"
    using g g' by (rule takeWhile_upto)
  have d2: "dropWhile not_gt (attrs @ CHR ''>'' # rest) = CHR ''>'' # rest"
    using g g' by (rule dropWhile_upto)
  show ?thesis
    unfolding rx_name_rest_def Let_def t d t2 d2 using ne by simp
qed

lemma rx_named_tag_render:
  assumes "wf_named (Tag closing name attrs)"
  shows "rx_named_tag (render (Tag closing name attrs) @ rest) =
         Some (name, length (render (Tag closing name attrs)))"
proof (cases closing)
  case True
  then show ?thesis
    using rx_name_rest_render [OF assms, of rest] by (simp add: rx_named_tag_def)
next
  case False
  from assms obtain c cs where name: "name = c # cs" and c: "is_alnum c"
    by (cases name) auto
  have "c \<noteq> CHR ''/''" using c by (rule is_alnum_not_slash)
  then show ?thesis
    using False rx_name_rest_render [OF assms, of rest] unfolding name
    by (simp add: rx_named_tag_def)
qed

lemma rx_any_tag_named:
  assumes "wf_named (Tag closing name attrs)"
  shows "rx_any_tag (render (Tag closing name attrs) @ rest) =
         Some ((), length (render (Tag closing name attrs)))"
proof -
  let ?inner = "(if closing then ''/'' else []) @ name @ attrs"
  from assms have "list_all is_alnum name" and "CHR ''>'' \<notin> set attrs" by simp_all
  then have "list_all not_gt name" and "list_all not_gt attrs"
    using not_alnum_gt by (auto simp add: list_all_iff not_gt_def)
  then have i: "list_all not_gt ?inner" by (simp add: not_gt_def)
  have g: "\<not> not_gt (CHR ''>'')" by (simp add: not_gt_def)
  have ne: "?inner \<noteq> []" using assms by simp
  have r: "render (Tag closing name attrs) @ rest = CHR ''<'' # (?inner @ CHR ''>'' # rest)"
    by simp
  have t: "takeWhile not_gt (?inner @ CHR ''>'' # rest) = ?inner"
    using i g by (rule takeWhile_upto)
  have d: "dropWhile not_gt (?inner @ CHR ''>'' # rest) = CHR ''>'' # rest"
    using i g by (rule dropWhile_upto)
  have "rx_any_tag (CHR ''<'' # (?inner @ CHR ''>'' # rest)) = Some ((), length ?inner + 2)"
    unfolding rx_any_tag_def list.case t d using ne by simp
  then show ?thesis unfolding r by simp
qed

lemma rx_named_tag_head: "c \<noteq> CHR ''<'' \<Longrightarrow> rx_named_tag (c # cs) = None"
  by (simp add: rx_named_tag_def)

lemma pass_strip_doc:
  assumes "list_all wf_named doc"
  shows "pass_strip ig (concat (map render doc)) = concat (map render (filter (stays ig) doc))"
proof (cases "ig = []")
  case True
  have k: "(\<lambda>t. case t of Text s \<Rightarrow> True | Tag closing name attrs \<Rightarrow> False) = stays []"
    by (rule ext) (simp split: token.splits)
  have "replace_with rx_any_tag (\<lambda>match tag. if False then match else []) (concat (map render doc)) =
        concat (map render (filter (stays []) doc))"
    using replace_with_tokens [of rx_any_tag wf_named "\<lambda>name. ()" doc "\<lambda>u. False",
        OF rx_any_tag_head _ rx_any_tag_named _ assms]
    unfolding k by (simp add: rx_any_tag_def)
  then show ?thesis using True by (simp add: pass_strip_def)
next
  case False
  have k: "(\<lambda>t. case t of Text s \<Rightarrow> True | Tag closing name attrs \<Rightarrow> toLowerCase name \<in> set ig) =
           stays ig"
    by (rule ext) (simp split: token.splits)
  have "replace_with rx_named_tag (\<lambda>match tag. if toLowerCase tag \<in> set ig then match else [])
          (concat (map render doc)) =
        concat (map render (filter (stays ig) doc))"
    using replace_with_tokens [of rx_named_tag wf_named "\<lambda>name. name" doc "\<lambda>tag. toLowerCase tag \<in> set ig",
        OF rx_named_tag_head _ rx_named_tag_render _ assms]
    unfolding k by (simp add: rx_named_tag_def)
  then show ?thesis using False by (simp add: pass_strip_def)
qed

section \<open>The ordered-list pass\<close>

lemma number_items_ignored: "''li'' \<in> set ig \<Longrightarrow> number_items ig c = c"
  unfolding number_items_def
  by (rule replace_all_st_identity) (auto split: option.splits)

lemma number_items_blocks:
  assumes "''li'' \<notin> set ig" "list_all (wf_block False ''li'') items"
    "\<not> anywhere (rx_element False ''li'') fin"
  shows "replace_all_st
       (\<lambda>counter s.
          case rx_element False ''li'' s of
            None \<Rightarrow> None
          | Some (liContent, n) \<Rightarrow>
              if ''li'' \<in> set ig then Some ((take n s, counter), n)
              else Some ((show_nat (counter + 1) @ ''. '' @ liContent @ ''\<newline>'', counter + 1), n))
       k (concat (map render_block items) @ fin) = numbered_items (Suc k) items @ fin"
  (is "replace_all_st ?m k _ = _")
  using assms(2)
proof (induction items arbitrary: k)
  case Nil
  have "replace_all_st ?m k fin = fin"
    using _ assms(3) by (rule replace_all_st_absent) simp
  then show ?case by simp
next
  case (Cons b items)
  obtain pre ot c ct where b: "b = (pre, ot, c, ct)" by (cases b)
  from Cons.prems have p: "lacks (CHR ''<'' # ''li>'') pre" and o: "opens ''li'' ot"
    and cl: "closes ''li'' ct" and c: "lacks (''</'' @ ''li'' @ ''>'') c" and d: "False \<or> single_line c"
    and r: "list_all (wf_block False ''li'') items"
    unfolding b by simp_all
  let ?rest = "concat (map render_block items) @ fin"
  from o obtain r' where ot: "ot = CHR ''<'' # r'" using opens_ne by blast
  have n: "\<And>st s. \<not> lit_ci (CHR ''<'' # ''li>'') s \<Longrightarrow> ?m st s = None"
    using rx_element_no_open [of "''li''"] by simp
  have s1: "replace_all_st ?m k (pre @ CHR ''<'' # (r' @ c @ ct @ ?rest)) =
            pre @ replace_all_st ?m k (CHR ''<'' # (r' @ c @ ct @ ?rest))"
    using n p by (intro replace_all_st_skip [of "''li>''"]) simp_all
  have "rx_element False ''li'' (ot @ c @ ct @ ?rest) = Some (c, length (ot @ c @ ct))"
    using o cl c d by (intro rx_element_block_ci) simp_all
  then have m: "?m k ((ot @ c @ ct) @ ?rest) =
             Some ((show_nat (k + 1) @ ''. '' @ c @ ''\<newline>'', k + 1), length (ot @ c @ ct))"
    using assms(1) by simp
  have ne: "ot @ c @ ct \<noteq> []" unfolding ot by simp
  have s2: "replace_all_st ?m k ((ot @ c @ ct) @ ?rest) =
            (show_nat (k + 1) @ ''. '' @ c @ ''\<newline>'') @ replace_all_st ?m (k + 1) ?rest"
    using m ne by (rule replace_all_st_block)
  show ?case
    unfolding b using s1 s2 Cons.IH [OF r, of "Suc k"] unfolding ot by simp
qed

lemma pass_ol_blocks:
  assumes "''ol'' \<notin> set ig" "''li'' \<notin> set ig" "list_all wf_ol doc"
    "\<not> anywhere (rx_element True ''ol'') fin"
  shows "pass_ol ig (concat (map render_ol doc) @ fin) = concat (map numbered_ol doc) @ fin"
proof -
  let ?b = "\<lambda>b. case b of OlBlock pre ot items f ct \<Rightarrow> (pre, ot, concat (map render_block items) @ f, ct)"
  have r: "map render_ol doc = map render_block (map ?b doc)"
    by (simp add: comp_def split: ol_block.splits)
  have w: "list_all (wf_block True ''ol'') (map ?b doc)"
    using assms(3) by (induction doc) (auto split: ol_block.splits)
  have n: "map (\<lambda>(pre, ot, c, ct). pre @ number_items ig c) (map ?b doc) = map numbered_ol doc"
    using assms(3)
  proof (induction doc)
    case Nil
    then show ?case by simp
  next
    case (Cons b doc)
    obtain pre ot items f ct where b: "b = OlBlock pre ot items f ct" by (cases b)
    from Cons.prems have "list_all (wf_block False ''li'') items" "\<not> anywhere (rx_element False ''li'') f"
      unfolding b by simp_all
    then have "number_items ig (concat (map render_block items) @ f) = numbered_items 1 items @ f"
      unfolding number_items_def using number_items_blocks [OF assms(2), of items f 0] by simp
    then show ?case using Cons unfolding b by simp
  qed
  have "pass_ol ig (concat (map render_block (map ?b doc)) @ fin) =
        concat (map (\<lambda>(pre, ot, c, ct). pre @ number_items ig c) (map ?b doc)) @ fin"
    unfolding pass_ol_def
    using replace_with_blocks [of "''ol''" True "map ?b doc" fin, OF _ w] assms(1,4)
    by simp
  then show ?thesis unfolding r n .
qed

lemma pass_ol_items_ignored:
  assumes "''ol'' \<notin> set ig" "''li'' \<in> set ig" "list_all (wf_block True ''ol'') doc"
    "\<not> anywhere (rx_element True ''ol'') fin"
  shows "pass_ol ig (concat (map render_block doc) @ fin) =
         concat (map (\<lambda>(pre, ot, c, ct). pre @ c) doc) @ fin"
  unfolding pass_ol_def
  using replace_with_blocks [of "''ol''" True doc fin, OF _ assms(3)] assms(1,2,4)
  by (simp add: number_items_ignored)

lemma pass_ol_ignored: "''ol'' \<in> set ig \<Longrightarrow> pass_ol ig s = s"
  by (simp add: pass_ol_def replace_with_identity)

lemma pass_ol_unwrapped:
  assumes "''ol'' \<notin> set ig" "''li'' \<in> set ig" "list_all (wf_block True ''ol'') blocks"
    "\<not> anywhere (rx_element True ''ol'') fin"
  shows "pass_ol ig (concat (map render_block blocks) @ fin) = concat (map unwrapped blocks) @ fin"
proof -
  have u: "(\<lambda>(pre, ot, c, ct). pre @ c) = unwrapped"
    by (rule ext) (simp split: prod.splits)
  show ?thesis
    using pass_ol_items_ignored [OF assms] unfolding u .
qed

lemma pass_ol_any_blocks:
  assumes "''ol'' \<notin> set ig" "list_all (wf_block True ''ol'') blocks"
    "\<not> anywhere (rx_element True ''ol'') fin"
  shows "pass_ol ig (concat (map render_block blocks) @ fin) =
         concat (map (\<lambda>(pre, ot, c, ct). pre @ number_items ig c) blocks) @ fin"
  unfolding pass_ol_def
  using replace_with_blocks [of "''ol''" True blocks fin, OF _ assms(2,3)] assms(1)
  by simp

lemma number_items_doc:
  assumes "''li'' \<notin> set ig" "list_all (wf_block False ''li'') items"
    "\<not> anywhere (rx_element False ''li'') rest"
  shows "number_items ig (concat (map render_block items) @ rest) = numbered_items 1 items @ rest"
  unfolding number_items_def using number_items_blocks [OF assms, of 0] by simp

lemma ol_examples:
  "preserveFormat ''<ol><li>First</li><li>Second</li></ol><div>padding</div>'' [] =
     ''1. First\<newline>2. Second\<newline>padding''"
  "preserveFormat ''<ol><li>a</li><li>b</li></ol><ol><li>c</li></ol>'' [] = ''1. a\<newline>2. b\<newline>1. c''"
  "preserveFormat ''<ol><li>a</li></ol>'' [''ol'', ''li''] = ''<ol><li>a</li></ol>''"
  by code_simp+

text \<open>
  An item whose content holds a line terminator is not matched by the item pattern, which
  lacks the \<open>s\<close> flag the block pattern has: it is left unnumbered, and the counter is
  not advanced for it. The amended claim says nothing about such items.
\<close>

lemma ol_item_with_line_break:
  "preserveFormat ''<ol><li>a<br>b</li><li>c</li></ol>'' [] = ''a\<newline>b1. c''"
  by code_simp

text \<open>
  Claim C7, as amended. The ordered-list pass of \<open>preserveFormat\<close> reads the text as
  blocks \<open><ol>...</ol>\<close> (the tags in any letter case, a block running from an opening
  tag to the first closing tag after it) and the text around them. When \<open>ol\<close> is not in
  the ignore list, every block is replaced by its content after the item replacement,
  which starts its counter anew for every block; the text around the blocks is copied.
  When \<open>li\<close> is not in the ignore list, the item replacement reads a content as items
  \<open><li>c</li>\<close> (tags in any letter case, \<open>c\<close> without a line terminator) and the text
  around them (no opening tag of an item in the text before an item, no further item
  after the last one), and replaces every item by \<open>N. \<close>, \<open>c\<close> and a newline: \<open>N\<close> is 1 for
  the first item and grows by one with every item; the text around the items is copied.
  When \<open>li\<close> is in the ignore list the item replacement leaves every content as it
  stands. So with neither in the list a text of such blocks becomes the text of their
  numbered items, every block numbered from 1; and with \<open>li\<close> in the list and \<open>ol\<close> not,
  every block is replaced by its content, items included. When \<open>ol\<close> is in the ignore
  list the pass leaves the whole text as it is, whatever \<open>li\<close> is. The final strip of
  \<open>preserveFormat\<close> then removes, from a text of pieces and tags, every tag whose
  lowercased name is not in the ignore list and copies the rest: the \<open>li\<close> tags of a
  block that was left alone stay only when \<open>li\<close> is in the ignore list too.
\<close>

theorem ordered_list_pass:
  "(''ol'' \<notin> set ig \<and> list_all (wf_block True ''ol'') blocks \<and>
    \<not> anywhere (rx_element True ''ol'') fin \<longrightarrow>
      pass_ol ig (concat (map render_block blocks) @ fin) =
        concat (map (\<lambda>(pre, ot, c, ct). pre @ number_items ig c) blocks) @ fin) \<and>
   (''li'' \<notin> set ig \<and> list_all (wf_block False ''li'') items \<and>
    \<not> anywhere (rx_element False ''li'') rest \<longrightarrow>
      number_items ig (concat (map render_block items) @ rest) = numbered_items 1 items @ rest) \<and>
   (''li'' \<in> set ig \<longrightarrow> number_items ig c = c) \<and>
   (''ol'' \<notin> set ig \<and> ''li'' \<notin> set ig \<and> list_all wf_ol doc \<and>
    \<not> anywhere (rx_element True ''ol'') fin \<longrightarrow>
      pass_ol ig (concat (map render_ol doc) @ fin) = concat (map numbered_ol doc) @ fin) \<and>
   (''ol'' \<notin> set ig \<and> ''li'' \<in> set ig \<and> list_all (wf_block True ''ol'') blocks \<and>
    \<not> anywhere (rx_element True ''ol'') fin \<longrightarrow>
      pass_ol ig (concat (map render_block blocks) @ fin) = concat (map unwrapped blocks) @ fin) \<and>
   (''ol'' \<in> set ig \<longrightarrow> pass_ol ig s = s) \<and>
   (list_all wf_named toks \<longrightarrow>
      pass_strip ig (concat (map render toks)) = concat (map render (filter (stays ig) toks))) \<and>
   preserveFormat ''<ol><li>First</li><li>Second</li></ol><div>padding</div>'' [] =
     ''1. First\<newline>2. Second\<newline>padding'' \<and>
   preserveFormat ''<ol><li>a</li><li>b</li></ol><ol><li>c</li></ol>'' [] = ''1. a\<newline>2. b\<newline>1. c'' \<and>
   preserveFormat ''<ol><li>a</li></ol>'' [''ol'', ''li''] = ''<ol><li>a</li></ol>''"
proof (intro conjI impI)
  assume "''ol'' \<notin> set ig \<and> list_all (wf_block True ''ol'') blocks \<and>
    \<not> anywhere (rx_element True ''ol'') fin"
  then show "pass_ol ig (concat (map render_block blocks) @ fin) =
        concat (map (\<lambda>(pre, ot, c, ct). pre @ number_items ig c) blocks) @ fin"
    using pass_ol_any_blocks [of ig blocks fin] by blast
next
  assume "''li'' \<notin> set ig \<and> list_all (wf_block False ''li'') items \<and>
    \<not> anywhere (rx_element False ''li'') rest"
  then show "number_items ig (concat (map render_block items) @ rest) = numbered_items 1 items @ rest"
    using number_items_doc [of ig items rest] by blast
next
  assume "''li'' \<in> set ig"
  then show "number_items ig c = c" by (rule number_items_ignored)
next
  assume "''ol'' \<notin> set ig \<and> ''li'' \<notin> set ig \<and> list_all wf_ol doc \<and>
    \<not> anywhere (rx_element True ''ol'') fin"
  then show "pass_ol ig (concat (map render_ol doc) @ fin) = concat (map numbered_ol doc) @ fin"
    using pass_ol_blocks [of ig doc fin] by blast
next
  assume "''ol'' \<notin> set ig \<and> ''li'' \<in> set ig \<and> list_all (wf_block True ''ol'') blocks \<and>
    \<not> anywhere (rx_element True ''ol'') fin"
  then show "pass_ol ig (concat (map render_block blocks) @ fin) = concat (map unwrapped blocks) @ fin"
    using pass_ol_unwrapped [of ig blocks fin] by blast
next
  assume "''ol'' \<in> set ig"
  then show "pass_ol ig s = s" by (rule pass_ol_ignored)
next
  assume "list_all wf_named toks"
  then show "pass_strip ig (concat (map render toks)) = concat (map render (filter (stays ig) toks))"
    by (rule pass_strip_doc)
qed (rule ol_examples)+

theorem ordered_list_pass_witness:
  "list_all wf_ol
     [OlBlock ''intro '' ''<OL>''
        [('' '', ''<li>'', ''x <b>y</b>'', ''</LI>''), ('', '', ''<Li>'', ''z'', ''</li>'')] ''. '' ''</ol>'',
      OlBlock '' and '' ''<ol>'' [([], ''<li>'', ''w'', ''</li>'')] [] ''</Ol>''] \<and>
   \<not> anywhere (rx_element True ''ol'') '' end <ol>'' \<and>
   pass_ol [''b''] ''intro <OL> <li>x <b>y</b></LI>, <Li>z</li>. </ol> and <ol><li>w</li></Ol> end <ol>'' =
     ''intro  1. x <b>y</b>\<newline>, 2. z\<newline>.  and 1. w\<newline> end <ol>'' \<and>
   list_all (wf_block True ''ol'') [(''intro '', ''<OL>'', '' <li>x</li>, <li>z</li>'', ''</ol>'')] \<and>
   pass_ol [''li''] ''intro <OL> <li>x</li>, <li>z</li></ol> end <ol>'' =
     ''intro  <li>x</li>, <li>z</li> end <ol>'' \<and>
   pass_ol [''ol''] ''<ol><li>a</li></ol>'' = ''<ol><li>a</li></ol>'' \<and>
   list_all wf_named
     [Tag False ''ol'' [], Tag False ''li'' '' class=x'', Text ''a'', Tag True ''LI'' [],
      Tag False ''BR'' ''/'', Tag True ''ol'' []] \<and>
   pass_strip [''ol''] ''<ol><li class=x>a</LI><BR/></ol>'' = ''<ol>a</ol>'' \<and>
   pass_strip [''ol'', ''li''] ''<ol><li class=x>a</LI><BR/></ol>'' = ''<ol><li class=x>a</LI></ol>'' \<and>
   pass_ol [''b''] ''intro <OL> <li>x</li>, <li>z</li></ol> end <ol>'' =
     ''intro  1. x\<newline>, 2. z\<newline> end <ol>'' \<and>
   list_all (wf_block False ''li'') [('' '', ''<li>'', ''x'', ''</li>''), ('', '', ''<LI>'', ''y'', ''</li>'')] \<and>
   \<not> anywhere (rx_element False ''li'') ''. <li>'' \<and>
   number_items [''b''] '' <li>x</li>, <LI>y</li>. <li>'' = '' 1. x\<newline>, 2. y\<newline>. <li>'' \<and>
   number_items [''li''] ''<li>x</li>'' = ''<li>x</li>''"
proof -
  let ?doc = "[OlBlock ''intro '' ''<OL>''
        [('' '', ''<li>'', ''x <b>y</b>'', ''</LI>''), ('', '', ''<Li>'', ''z'', ''</li>'')] ''. '' ''</ol>'',
      OlBlock '' and '' ''<ol>'' [([], ''<li>'', ''w'', ''</li>'')] [] ''</Ol>'']"
  let ?blocks = "[(''intro '', ''<OL>'', '' <li>x</li>, <li>z</li>'', ''</ol>'')]"
  let ?toks = "[Tag False ''ol'' [], Tag False ''li'' '' class=x'', Text ''a'', Tag True ''LI'' [],
      Tag False ''BR'' ''/'', Tag True ''ol'' []]"
  have w1: "list_all wf_ol ?doc" by code_simp
  have f1: "\<not> anywhere (rx_element True ''ol'') '' end <ol>''" by code_simp
  have w2: "list_all (wf_block True ''ol'') ?blocks" by code_simp
  have w4: "list_all wf_named ?toks" by code_simp
  have i1: "''ol'' \<notin> set [''b'']" "''li'' \<notin> set [''b'']" by simp_all
  have i2: "''ol'' \<notin> set [''li'']" "''li'' \<in> set [''li'']" by simp_all
  have i3: "''ol'' \<in> set [''ol'']" by simp
  have r1: "concat (map render_ol ?doc) @ '' end <ol>'' =
      ''intro <OL> <li>x <b>y</b></LI>, <Li>z</li>. </ol> and <ol><li>w</li></Ol> end <ol>''"
    by simp
  have n1: "concat (map numbered_ol ?doc) @ '' end <ol>'' =
      ''intro  1. x <b>y</b>\<newline>, 2. z\<newline>.  and 1. w\<newline> end <ol>''"
    by code_simp
  have r2: "concat (map render_block ?blocks) @ '' end <ol>'' =
      ''intro <OL> <li>x</li>, <li>z</li></ol> end <ol>''"
    by simp
  have n2: "concat (map unwrapped ?blocks) @ '' end <ol>'' = ''intro  <li>x</li>, <li>z</li> end <ol>''"
    by simp
  have r4: "concat (map render ?toks) = ''<ol><li class=x>a</LI><BR/></ol>''" by simp
  have n4: "concat (map render (filter (stays [''ol'']) ?toks)) = ''<ol>a</ol>''" by code_simp
  have n5: "concat (map render (filter (stays [''ol'', ''li'']) ?toks)) = ''<ol><li class=x>a</LI></ol>''"
    by code_simp
  from ordered_list_pass [of "[''b'']" _ "'' end <ol>''" _ _ _ ?doc] i1 w1 f1
  have a: "pass_ol [''b''] (concat (map render_ol ?doc) @ '' end <ol>'') =
           concat (map numbered_ol ?doc) @ '' end <ol>''"
    by blast
  from ordered_list_pass [of "[''li'']" ?blocks "'' end <ol>''"] i2 w2 f1
  have b: "pass_ol [''li''] (concat (map render_block ?blocks) @ '' end <ol>'') =
           concat (map unwrapped ?blocks) @ '' end <ol>''"
    by blast
  from ordered_list_pass [of "[''ol'']" _ _ _ _ _ _ "''<ol><li>a</li></ol>''"] i3
  have c: "pass_ol [''ol''] ''<ol><li>a</li></ol>'' = ''<ol><li>a</li></ol>''"
    by blast
  from ordered_list_pass [of "[''ol'']" _ _ _ _ _ _ _ ?toks] w4
  have d: "pass_strip [''ol''] (concat (map render ?toks)) =
           concat (map render (filter (stays [''ol'']) ?toks))"
    by blast
  from ordered_list_pass [of "[''ol'', ''li'']" _ _ _ _ _ _ _ ?toks] w4
  have e: "pass_strip [''ol'', ''li''] (concat (map render ?toks)) =
           concat (map render (filter (stays [''ol'', ''li'']) ?toks))"
    by blast
  have n6: "concat (map (\<lambda>(pre, ot, c, ct). pre @ number_items [''b''] c) ?blocks) @ '' end <ol>'' =
      ''intro  1. x\<newline>, 2. z\<newline> end <ol>''"
    by code_simp
  from ordered_list_pass [of "[''b'']" ?blocks "'' end <ol>''"] i1 w2 f1
  have f: "pass_ol [''b''] (concat (map render_block ?blocks) @ '' end <ol>'') =
           concat (map (\<lambda>(pre, ot, c, ct). pre @ number_items [''b''] c) ?blocks) @ '' end <ol>''"
    by blast
  let ?items = "[('' '', ''<li>'', ''x'', ''</li>''), ('', '', ''<LI>'', ''y'', ''</li>'')]"
  have w7: "list_all (wf_block False ''li'') ?items" by code_simp
  have f7: "\<not> anywhere (rx_element False ''li'') ''. <li>''" by code_simp
  have r7: "concat (map render_block ?items) @ ''. <li>'' = '' <li>x</li>, <LI>y</li>. <li>''" by simp
  have n7: "numbered_items 1 ?items @ ''. <li>'' = '' 1. x\<newline>, 2. y\<newline>. <li>''" by code_simp
  from ordered_list_pass [of "[''b'']" _ _ ?items "''. <li>''"] i1 w7 f7
  have g: "number_items [''b''] (concat (map render_block ?items) @ ''. <li>'') =
           numbered_items 1 ?items @ ''. <li>''"
    by blast
  from ordered_list_pass [of "[''li'']" _ _ _ _ "''<li>x</li>''"] i2
  have h: "number_items [''li''] ''<li>x</li>'' = ''<li>x</li>''"
    by blast
  show ?thesis
    using w1 f1 w2 w4 a [unfolded r1 n1] b [unfolded r2 n2] c d [unfolded r4 n4] e [unfolded r4 n5]
      f [unfolded r2 n6] w7 f7 g [unfolded r7 n7] h
    by (intro conjI)
qed

text \<open>
  The claim as the spec states it fails: with \<open>ol\<close> in the ignore list and \<open>li\<close> not, the
  final strip of \<open>preserveFormat\<close> removes the inner \<open><li>\<close> tags; and with \<open>li\<close> in the
  ignore list and \<open>ol\<close> not, the items are not numbered.
\<close>

theorem ordered_list_pass_counterexample:
  "preserveFormat ''<ol><li>a</li></ol>'' [''ol''] = ''<ol>a</ol>'' \<and>
   preserveFormat ''<ol><li>a</li></ol>'' [''li''] = ''<li>a</li>''"
  by code_simp

section \<open>The blockquote pass\<close>

lemma lit_ci_length: "lit_ci p s \<Longrightarrow> length p \<le> length s"
  by (induction p s rule: lit_ci.induct) (auto split: if_splits)

lemma rx_br_end:
  assumes "lit_ci ''<br'' s" "dropWhile is_ws (drop 3 s) = e @ rest" "e = ''/>'' \<or> e = ''>''"
  shows "rx_br s = Some ((), 3 + length (takeWhile is_ws (drop 3 s)) + length e)"
  using assms(3)
proof
  assume "e = ''/>''"
  then show ?thesis using assms(1,2) by (simp add: rx_br_def Let_def)
next
  assume "e = ''>''"
  then show ?thesis using assms(1,2) by (simp add: rx_br_def Let_def)
qed

lemma rx_br_tag_rest:
  assumes "br_tag tag"
  shows "rx_br (tag @ rest) = Some ((), length tag)"
proof -
  define d where "d = drop 3 tag"
  define e where "e = dropWhile is_ws d"
  define ws where "ws = takeWhile is_ws d"
  from assms have l: "lit_ci ''<br'' tag" and e: "e = ''/>'' \<or> e = ''>''"
    by (simp_all add: br_tag_def e_def d_def)
  from l have len: "3 \<le> length tag" using lit_ci_length [of "''<br''" tag] by simp
  then have d: "drop 3 (tag @ rest) = d @ rest" by (simp add: d_def)
  from e obtain y ys where y: "e = y # ys" by (elim disjE) blast+
  have "y \<in> set (dropWhile is_ws d)" using y by (simp add: e_def)
  then have x1: "y \<in> set d" by (rule set_dropWhileD)
  have "dropWhile is_ws d \<noteq> []" using y unfolding e_def by (simp only: list.distinct not_False_eq_True)
  then have "\<not> is_ws (hd (dropWhile is_ws d))" by (rule hd_dropWhile)
  then have x2: "\<not> is_ws y" using y unfolding e_def by simp
  have t: "takeWhile is_ws (d @ rest) = ws"
    unfolding ws_def using x1 x2 by (rule takeWhile_append1)
  have r: "dropWhile is_ws (d @ rest) = e @ rest"
    unfolding e_def using x1 x2 by (rule dropWhile_append1)
  have "ws @ e = d" unfolding ws_def e_def by (rule takeWhile_dropWhile_id)
  then have "length d = length ws + length e" by (metis length_append)
  moreover have "length tag = 3 + length d" using len unfolding d_def by simp
  ultimately have n: "length tag = 3 + length ws + length e" by simp
  have l': "lit_ci ''<br'' (tag @ rest)" using l by (rule lit_ci_append)
  have "rx_br (tag @ rest) = Some ((), 3 + length (takeWhile is_ws (drop 3 (tag @ rest))) + length e)"
    using l' _ e by (rule rx_br_end) (simp only: d r)
  then show ?thesis unfolding d t n .
qed

lemma replace_with_skip_stable:
  assumes "\<And>s. s \<noteq> [] \<Longrightarrow> rx s = None \<Longrightarrow> rx (s @ CHR ''<'' # w) = None"
    "\<not> anywhere rx pre"
  shows "replace_with rx cb (pre @ CHR ''<'' # w) = pre @ replace_with rx cb (CHR ''<'' # w)"
  using assms(2)
proof (induction pre)
  case Nil
  then show ?case by simp
next
  case (Cons x xs)
  then have a: "rx (x # xs) = None" and b: "\<not> anywhere rx xs"
    by (cases "rx (x # xs)"; auto)+
  have "rx ((x # xs) @ CHR ''<'' # w) = None"
    using _ a by (rule assms(1)) simp
  then show ?case using Cons.IH [OF b] by (simp add: replace_with_None)
qed

lemma lit_ci_end_stable:
  assumes "\<not> lit_ci p r" "r \<noteq> []" "p = ''/>'' \<or> p = ''>''"
  shows "\<not> lit_ci p (r @ CHR ''<'' # w)"
proof (cases r)
  case Nil
  with assms(2) show ?thesis by simp
next
  case r1: (Cons x xs)
  show ?thesis
  proof (cases xs)
    case Nil
    with assms(1,3) r1 show ?thesis by (auto simp add: ci_eq_lt_left split: if_splits)
  next
    case (Cons y ys)
    with assms(1,3) r1 show ?thesis by (auto split: if_splits)
  qed
qed

lemma rx_br_stable:
  assumes "s \<noteq> []" "rx_br s = None"
  shows "rx_br (s @ CHR ''<'' # w) = None"
proof (cases "lit_ci ''<br'' s")
  case False
  then have "\<not> lit_ci (CHR ''<'' # ''br'') (s @ CHR ''<'' # w)"
    using assms(1) by (intro lit_ci_no_straddle) simp_all
  then show ?thesis by (simp add: rx_br_def)
next
  case True
  define d where "d = drop 3 s"
  define r where "r = dropWhile is_ws d"
  from True have len: "3 \<le> length s" using lit_ci_length [of "''<br''" s] by simp
  then have dd: "drop 3 (s @ CHR ''<'' # w) = d @ CHR ''<'' # w" by (simp add: d_def)
  from assms(2) True have n1: "\<not> lit_ci ''/>'' r" and n2: "\<not> lit_ci ''>'' r"
    by (auto simp add: rx_br_def Let_def r_def d_def split: if_splits)
  have nw: "\<not> is_ws (CHR ''<'')" by code_simp
  have "\<not> lit_ci ''/>'' (dropWhile is_ws (d @ CHR ''<'' # w)) \<and>
        \<not> lit_ci ''>'' (dropWhile is_ws (d @ CHR ''<'' # w))"
  proof (cases "r = []")
    case True
    then have "\<forall>x\<in>set d. is_ws x" unfolding r_def by (simp only: dropWhile_eq_Nil_conv)
    then have "dropWhile is_ws (d @ CHR ''<'' # w) = CHR ''<'' # w"
      using nw by (simp add: dropWhile_append)
    then show ?thesis by (simp add: ci_eq_lt_left)
  next
    case False
    then obtain y ys where y: "dropWhile is_ws d = y # ys" unfolding r_def by (cases "dropWhile is_ws d") auto
    have "y \<in> set (dropWhile is_ws d)" unfolding y by simp
    then have x1: "y \<in> set d" by (rule set_dropWhileD)
    have "dropWhile is_ws d \<noteq> []" unfolding y by (simp only: list.distinct not_False_eq_True)
    then have "\<not> is_ws (hd (dropWhile is_ws d))" by (rule hd_dropWhile)
    then have x2: "\<not> is_ws y" unfolding y by simp
    have "dropWhile is_ws (d @ CHR ''<'' # w) = r @ CHR ''<'' # w"
      unfolding r_def using x1 x2 by (rule dropWhile_append1)
    then show ?thesis
      using lit_ci_end_stable [OF n1 False, of w] lit_ci_end_stable [OF n2 False, of w] by simp
  qed
  then show ?thesis unfolding rx_br_def Let_def dd by simp
qed

lemma br_to_newline_doc:
  assumes "list_all (\<lambda>(pre, tag). \<not> anywhere rx_br pre \<and> br_tag tag) doc" "\<not> anywhere rx_br fin"
  shows "br_to_newline (concat (map (\<lambda>(pre, tag). pre @ tag) doc) @ fin) =
         concat (map (\<lambda>(pre, tag). pre @ ''\<newline>'') doc) @ fin"
  using assms(1)
proof (induction doc)
  case Nil
  show ?case unfolding br_to_newline_def using assms(2) by (simp add: replace_with_absent)
next
  case (Cons b doc)
  obtain pre tag where b: "b = (pre, tag)" by (cases b)
  from Cons.prems have p: "\<not> anywhere rx_br pre" and t: "br_tag tag"
    and r: "list_all (\<lambda>(pre, tag). \<not> anywhere rx_br pre \<and> br_tag tag) doc"
    unfolding b by simp_all
  let ?rest = "concat (map (\<lambda>(pre, tag). pre @ tag) doc) @ fin"
  let ?cb = "\<lambda>match u. ''\<newline>''"
  from t obtain r' where tag: "tag = CHR ''<'' # r'"
    using lit_ci_lt_Cons [of "''br''" tag] by (auto simp add: br_tag_def)
  have s1: "replace_with rx_br ?cb (pre @ CHR ''<'' # (r' @ ?rest)) =
            pre @ replace_with rx_br ?cb (CHR ''<'' # (r' @ ?rest))"
    using rx_br_stable p by (rule replace_with_skip_stable)
  have m: "rx_br (tag @ ?rest) = Some ((), length tag)"
    using t by (rule rx_br_tag_rest)
  have ne: "tag \<noteq> []" unfolding tag by simp
  have s2: "replace_with rx_br ?cb (tag @ ?rest) = ''\<newline>'' @ replace_with rx_br ?cb ?rest"
    using m ne by (rule replace_with_block)
  show ?case
    unfolding b using s1 s2 Cons.IH [OF r] unfolding tag br_to_newline_def by simp
qed

lemma pass_blockquote_blocks:
  assumes "''blockquote'' \<notin> set ig" "list_all (wf_block True ''blockquote'') doc"
    "\<not> anywhere (rx_element True ''blockquote'') fin"
  shows "pass_blockquote ig (concat (map render_block doc) @ fin) = concat (map quoted doc) @ fin"
proof -
  have q: "(\<lambda>(pre, ot, c, ct). pre @ quote_lines c) = quoted"
    by (rule ext) (simp add: quote_lines_def split: prod.splits)
  show ?thesis
    unfolding pass_blockquote_def
    using replace_with_blocks [of "''blockquote''" True doc fin "\<lambda>match content. quote_lines content",
        OF _ assms(2,3)] assms(1)
    unfolding q by simp
qed

lemma split_chr_from_append:
  "sep \<notin> set x \<Longrightarrow> split_chr_from sep cur (x @ rest) = split_chr_from sep (cur @ x) rest"
  by (induction x arbitrary: cur) auto

lemma split_chr_join:
  assumes "xs \<noteq> []" "\<forall>x\<in>set xs. sep \<notin> set x"
  shows "split_chr_from sep cur (join [sep] xs) = (cur @ hd xs) # tl xs"
  using assms
proof (induction xs arbitrary: cur rule: induct_list012)
  case 1
  then show ?case by simp
next
  case (2 x)
  then show ?case using split_chr_from_append [of sep x cur "[]"] by simp
next
  case (3 x y zs)
  then have x: "sep \<notin> set x" and r: "\<forall>x\<in>set (y # zs). sep \<notin> set x" by simp_all
  have "split_chr_from sep cur (x @ sep # join [sep] (y # zs)) =
        split_chr_from sep (cur @ x) (sep # join [sep] (y # zs))"
    using x by (rule split_chr_from_append)
  also have "\<dots> = (cur @ x) # split_chr_from sep [] (join [sep] (y # zs))" by simp
  also have "split_chr_from sep [] (join [sep] (y # zs)) = y # zs"
    using 3(2) [of "[]"] r by simp
  finally show ?case by simp
qed

lemma split_chr_from_pieces:
  "x \<in> set (split_chr_from sep cur s) \<Longrightarrow> sep \<notin> set cur \<Longrightarrow> sep \<notin> set x"
proof (induction s arbitrary: cur)
  case Nil
  then show ?case by simp
next
  case (Cons c cs)
  show ?case
  proof (cases "c = sep")
    case True
    with Cons.prems(1) have "x = cur \<or> x \<in> set (split_chr_from sep [] cs)" by simp
    then show ?thesis using Cons.prems(2) Cons.IH [of "[]"] by auto
  next
    case False
    with Cons.prems(1) have "x \<in> set (split_chr_from sep (cur @ [c]) cs)" by simp
    then show ?thesis using Cons.prems(2) False Cons.IH [of "cur @ [c]"] by auto
  qed
qed

lemma split_chr_from_ne: "split_chr_from sep cur s \<noteq> []"
  by (induction s arbitrary: cur) auto

lemma set_trim: "set (trim s) \<subseteq> set s"
proof -
  have "set (trim s) \<subseteq> set (dropWhile is_ws s)"
    unfolding trim_def using set_dropWhileD by fastforce
  then show ?thesis using set_dropWhileD by fastforce
qed

lemma quote_lines_lines:
  "split_chr (CHR ''\<newline>'') (quote_lines c) =
   map (\<lambda>line. ''> '' @ trim line) (split_chr (CHR ''\<newline>'') (trim (br_to_newline c)))"
proof -
  let ?ls = "split_chr (CHR ''\<newline>'') (trim (br_to_newline c))"
  let ?qs = "map (\<lambda>line. ''> '' @ trim line) ?ls"
  have ne: "?qs \<noteq> []" using split_chr_from_ne by (simp add: split_chr_def)
  have "\<forall>l\<in>set ?ls. CHR ''\<newline>'' \<notin> set l"
    using split_chr_from_pieces [of _ "CHR ''\<newline>''" "[]"] by (auto simp add: split_chr_def)
  then have "\<forall>q\<in>set ?qs. CHR ''\<newline>'' \<notin> set q"
    using set_trim by fastforce
  with ne have "split_chr_from (CHR ''\<newline>'') [] (join ''\<newline>'' ?qs) = ([] @ hd ?qs) # tl ?qs"
    by (intro split_chr_join) simp_all
  then show ?thesis using ne by (simp add: quote_lines_def split_chr_def)
qed

lemma pass_br_doc:
  assumes "''br'' \<notin> set ig" "list_all wf_br brs" "\<not> anywhere rx_br fin"
  shows "pass_br ig (concat (map render_br brs) @ fin) = concat (map broken brs) @ fin"
proof -
  have r: "render_br = (\<lambda>(pre, tag). pre @ tag)" by (rule ext) (simp split: prod.splits)
  have b: "broken = (\<lambda>(pre, tag). pre @ ''\<newline>'')" by (rule ext) (simp split: prod.splits)
  have w: "wf_br = (\<lambda>(pre, tag). \<not> anywhere rx_br pre \<and> br_tag tag)"
    by (rule ext) (simp split: prod.splits)
  show ?thesis
    using assms br_to_newline_doc [of brs fin] unfolding r b w by (simp add: pass_br_def)
qed

lemma quoted_lines:
  "split_chr (CHR ''\<newline>'') (quoted ([], ot, c, ct)) =
   map (\<lambda>line. ''> '' @ trim line) (split_chr (CHR ''\<newline>'') (trim (br_to_newline c)))"
  using quote_lines_lines [of c] by (simp add: quote_lines_def)

lemma blockquote_examples:
  "preserveFormat ''<blockquote>Quote line 1<br>Quote line 2</blockquote>'' [] =
     ''> Quote line 1\<newline>> Quote line 2''"
  "preserveFormat ''<blockquote>Quote line 1<br>Quote line 2</blockquote>'' [''blockquote''] =
     ''<blockquote>Quote line 1\<newline>Quote line 2</blockquote>''"
  "preserveFormat ''<blockquote> a <br><br/>b</blockquote>'' [] = ''> a\<newline>> \<newline>> b''"
  by code_simp+

text \<open>
  Claim C8, as amended. The blockquote pass of \<open>preserveFormat\<close> reads the text as blocks
  \<open><blockquote>...</blockquote>\<close> (the tags in any letter case, a block running from an
  opening tag to the first closing tag after it) and the text around them. When neither
  \<open>blockquote\<close> nor \<open>br\<close> is in the ignore list, every block is replaced by the lines of
  its content: the \<open><br>\<close> tags still in the content become newlines, the content is
  trimmed and split at its newlines, every line (an empty one too) is trimmed and prefixed
  with \<open>> \<close>, and the lines are joined by newlines, so that every line of what replaces a
  block starts with \<open>> \<close>; the text around the blocks is copied. When \<open>blockquote\<close> is in
  the ignore list the pass leaves the whole text as it is, and what becomes of an inner
  \<open><br>\<close> is decided by the global \<open><br>\<close> pass alone: with \<open>br\<close> not in the ignore list
  that pass replaces every \<open><br>\<close> tag of the text by a newline and copies the rest, with
  \<open>br\<close> in the list it leaves the text as it is. The later passes of \<open>preserveFormat\<close>
  work on the text the blockquote pass has written.
\<close>

theorem blockquote_pass:
  "(''blockquote'' \<notin> set ig \<and> ''br'' \<notin> set ig \<and> list_all (wf_block True ''blockquote'') doc \<and>
    \<not> anywhere (rx_element True ''blockquote'') fin \<longrightarrow>
      pass_blockquote ig (concat (map render_block doc) @ fin) = concat (map quoted doc) @ fin) \<and>
   split_chr (CHR ''\<newline>'') (quoted ([], ot, c, ct)) =
     map (\<lambda>line. ''> '' @ trim line) (split_chr (CHR ''\<newline>'') (trim (br_to_newline c))) \<and>
   (''blockquote'' \<in> set ig \<longrightarrow> pass_blockquote ig s = s) \<and>
   (''br'' \<notin> set ig \<and> list_all wf_br brs \<and> \<not> anywhere rx_br rest \<longrightarrow>
      pass_br ig (concat (map render_br brs) @ rest) = concat (map broken brs) @ rest) \<and>
   (''br'' \<in> set ig \<longrightarrow> pass_br ig s = s) \<and>
   preserveFormat ''<blockquote>Quote line 1<br>Quote line 2</blockquote>'' [] =
     ''> Quote line 1\<newline>> Quote line 2'' \<and>
   preserveFormat ''<blockquote>Quote line 1<br>Quote line 2</blockquote>'' [''blockquote''] =
     ''<blockquote>Quote line 1\<newline>Quote line 2</blockquote>'' \<and>
   preserveFormat ''<blockquote> a <br><br/>b</blockquote>'' [] = ''> a\<newline>> \<newline>> b''"
proof (intro conjI impI)
  assume "''blockquote'' \<notin> set ig \<and> ''br'' \<notin> set ig \<and> list_all (wf_block True ''blockquote'') doc \<and>
    \<not> anywhere (rx_element True ''blockquote'') fin"
  then show "pass_blockquote ig (concat (map render_block doc) @ fin) = concat (map quoted doc) @ fin"
    using pass_blockquote_blocks [of ig doc fin] by blast
next
  show "split_chr (CHR ''\<newline>'') (quoted ([], ot, c, ct)) =
     map (\<lambda>line. ''> '' @ trim line) (split_chr (CHR ''\<newline>'') (trim (br_to_newline c)))"
    by (rule quoted_lines)
next
  assume "''blockquote'' \<in> set ig"
  then show "pass_blockquote ig s = s" by (simp add: pass_blockquote_def)
next
  assume "''br'' \<notin> set ig \<and> list_all wf_br brs \<and> \<not> anywhere rx_br rest"
  then show "pass_br ig (concat (map render_br brs) @ rest) = concat (map broken brs) @ rest"
    using pass_br_doc [of ig brs rest] by blast
next
  assume "''br'' \<in> set ig"
  then show "pass_br ig s = s" by (simp add: pass_br_def)
qed (rule blockquote_examples)+

theorem blockquote_pass_witness:
  "list_all (wf_block True ''blockquote'')
     [(''x'', ''<BlockQuote>'', '' a <br/>  b  '', ''</blockquote>''),
      (''y'', ''<blockquote>'', ''c'', ''</BLOCKQUOTE>'')] \<and>
   \<not> anywhere (rx_element True ''blockquote'') ''z<blockquote>'' \<and>
   pass_blockquote [''p''] ''x<BlockQuote> a <br/>  b  </blockquote>y<blockquote>c</BLOCKQUOTE>z<blockquote>'' =
     ''x> a\<newline>> by> cz<blockquote>'' \<and>
   pass_blockquote [''blockquote''] ''<blockquote>a<br>b</blockquote>'' = ''<blockquote>a<br>b</blockquote>'' \<and>
   list_all wf_br [(''<blockquote>a'', ''<br>''), (''b'', ''<BR />''), (''c<broken>d'', ''<bR/>'')] \<and>
   \<not> anywhere rx_br ''</blockquote><br'' \<and>
   pass_br [''blockquote''] ''<blockquote>a<br>b<BR />c<broken>d<bR/></blockquote><br'' =
     ''<blockquote>a\<newline>b\<newline>c<broken>d\<newline></blockquote><br'' \<and>
   pass_br [''blockquote'', ''br''] ''<blockquote>a<br>b</blockquote>'' = ''<blockquote>a<br>b</blockquote>''"
proof -
  let ?doc = "[(''x'', ''<BlockQuote>'', '' a <br/>  b  '', ''</blockquote>''),
      (''y'', ''<blockquote>'', ''c'', ''</BLOCKQUOTE>'')]"
  let ?brs = "[(''<blockquote>a'', ''<br>''), (''b'', ''<BR />''), (''c<broken>d'', ''<bR/>'')]"
  have w1: "list_all (wf_block True ''blockquote'') ?doc" by code_simp
  have f1: "\<not> anywhere (rx_element True ''blockquote'') ''z<blockquote>''" by code_simp
  have w2: "list_all wf_br ?brs" by code_simp
  have f2: "\<not> anywhere rx_br ''</blockquote><br''" by code_simp
  have i1: "''blockquote'' \<notin> set [''p'']" "''br'' \<notin> set [''p'']" by simp_all
  have i2: "''blockquote'' \<in> set [''blockquote'']" "''br'' \<notin> set [''blockquote'']" by simp_all
  have i3: "''br'' \<in> set [''blockquote'', ''br'']" by simp
  have r1: "concat (map render_block ?doc) @ ''z<blockquote>'' =
      ''x<BlockQuote> a <br/>  b  </blockquote>y<blockquote>c</BLOCKQUOTE>z<blockquote>''"
    by simp
  have n1: "concat (map quoted ?doc) @ ''z<blockquote>'' = ''x> a\<newline>> by> cz<blockquote>''"
    by code_simp
  have r2: "concat (map render_br ?brs) @ ''</blockquote><br'' =
      ''<blockquote>a<br>b<BR />c<broken>d<bR/></blockquote><br''"
    by simp
  have n2: "concat (map broken ?brs) @ ''</blockquote><br'' =
      ''<blockquote>a\<newline>b\<newline>c<broken>d\<newline></blockquote><br''"
    by simp
  from blockquote_pass [of "[''p'']" ?doc "''z<blockquote>''"] i1 w1 f1
  have a: "pass_blockquote [''p''] (concat (map render_block ?doc) @ ''z<blockquote>'') =
           concat (map quoted ?doc) @ ''z<blockquote>''"
    by blast
  from blockquote_pass [of "[''blockquote'']" _ _ _ _ _ "''<blockquote>a<br>b</blockquote>''"] i2
  have b: "pass_blockquote [''blockquote''] ''<blockquote>a<br>b</blockquote>'' =
           ''<blockquote>a<br>b</blockquote>''"
    by blast
  from blockquote_pass [of "[''blockquote'']" _ _ _ _ _ _ ?brs "''</blockquote><br''"] i2 w2 f2
  have c: "pass_br [''blockquote''] (concat (map render_br ?brs) @ ''</blockquote><br'') =
           concat (map broken ?brs) @ ''</blockquote><br''"
    by blast
  from blockquote_pass [of "[''blockquote'', ''br'']" _ _ _ _ _ "''<blockquote>a<br>b</blockquote>''"] i3
  have d: "pass_br [''blockquote'', ''br''] ''<blockquote>a<br>b</blockquote>'' =
           ''<blockquote>a<br>b</blockquote>''"
    by blast
  show ?thesis
    using w1 f1 w2 f2 a [unfolded r1 n1] b c [unfolded r2 n2] d
    by (intro conjI)
qed

text \<open>
  The claim as the spec states it fails: with \<open>blockquote\<close> and \<open>br\<close> both in the ignore
  list, the inner \<open><br>\<close> of a block is not converted; it does not hold of the result of
  \<open>preserveFormat\<close>, where the final strip takes \<open>< b\<close>, the newline and the \<open>>\<close> of
  the second line for a tag; and an empty line is prefixed like every other line.
\<close>

theorem blockquote_pass_counterexample:
  "preserveFormat ''<blockquote>Quote line 1<br>Quote line 2</blockquote>'' [''blockquote'', ''br''] =
     ''<blockquote>Quote line 1<br>Quote line 2</blockquote>'' \<and>
   preserveFormat ''<blockquote>a < b<br>c</blockquote>'' [] = ''> a  c'' \<and>
   preserveFormat ''<blockquote> a <br><br/>b</blockquote>'' [] = ''> a\<newline>> \<newline>> b''"
  by code_simp

section \<open>Strip mode on a document of text pieces and tags\<close>

lemma textify_strip:
  assumes "preserveFormatting opts = Some False" "\<not> positive (wrapWords opts)"
    "\<not> positive (wrapLength opts)"
  shows "textify opts = Inr (strip_tags (case ignoreTags opts of None \<Rightarrow> [] | Some ts \<Rightarrow> ts) (html opts))"
proof (cases "html opts = []")
  case True
  then show ?thesis by (simp add: textify_def strip_tags_Nil)
next
  case False
  then show ?thesis using assms by (simp add: textify_def wrap_output_none convert_def)
qed

lemma strip_examples:
  "textify \<lparr>html = ''<p>Tom &amp; Jerry&nbsp;&lt;3 <b>&gt;</b></p>'', preserveFormatting = Some False,
     ignoreTags = None, wrapLength = None, wrapWords = None\<rparr> = Inr ''Tom &amp; Jerry&nbsp;&lt;3 &gt;''"
  "textify \<lparr>html = ''<p>Tom &amp; Jerry&nbsp;&lt;3 <b>&gt;</b></p>'', preserveFormatting = Some False,
     ignoreTags = Some [''B''], wrapLength = None, wrapWords = None\<rparr> =
     Inr ''Tom &amp; Jerry&nbsp;&lt;3 <b>&gt;</b>''"
  by code_simp+

text \<open>
  Claim C5, as amended. Let the input be a document of text pieces and tags: a text piece
  holds no \<open><\<close>; a tag is \<open><\<close> or \<open></\<close>, a name (a letter, then letters, digits and
  hyphens, the last one a letter or a digit), a rest that holds no \<open>>\<close> and does not begin
  with a letter, a digit, a hyphen or an underscore, and \<open>>\<close>. On such an input \<open>textify\<close>
  with \<open>preserveFormatting = false\<close> and no wrap directive returns the text pieces and the
  tags whose lowercased name is the lowercase form of an entry of \<open>ignoreTags\<close>, in their
  order and exactly as they are written, trimmed: every other tag is removed, and no text
  piece is changed, so no entity in it is decoded. With an empty \<open>ignoreTags\<close> the same
  holds for tags of any form (one character at least and no \<open>>\<close> between \<open><\<close> and
  \<open>>\<close>): all of them are removed. An input in which the pattern \<open>/<[^>]+>/\<close> matches
  nowhere is only trimmed. With a wrap directive the wrap step runs on the stripped text.
\<close>

theorem strip_mode_removes_tags_only:
  "(preserveFormatting opts = Some False \<and> \<not> positive (wrapWords opts) \<and>
    \<not> positive (wrapLength opts) \<and> list_all wf_token doc \<and> html opts = concat (map render doc) \<longrightarrow>
      textify opts =
        Inr (trim (concat (map render
          (filter (kept (case ignoreTags opts of None \<Rightarrow> [] | Some ts \<Rightarrow> ts)) doc))))) \<and>
   (preserveFormatting opts = Some False \<and> \<not> positive (wrapWords opts) \<and>
    \<not> positive (wrapLength opts) \<and> \<not> anywhere rx_any_tag (html opts) \<longrightarrow>
      textify opts = Inr (trim (html opts))) \<and>
   (preserveFormatting opts = Some False \<and> html opts \<noteq> [] \<longrightarrow>
      textify opts =
        wrap_output (wrapWords opts) (wrapLength opts)
          (strip_tags (case ignoreTags opts of None \<Rightarrow> [] | Some ts \<Rightarrow> ts) (html opts))) \<and>
   (list_all wf_token doc \<longrightarrow>
      strip_tags ig (concat (map render doc)) = trim (concat (map render (filter (kept ig) doc)))) \<and>
   (list_all wf_any doc \<longrightarrow>
      strip_tags [] (concat (map render doc)) = trim (concat (map render (filter (kept []) doc)))) \<and>
   (\<not> anywhere rx_any_tag s \<longrightarrow> strip_tags ig s = trim s) \<and>
   textify \<lparr>html = ''<p>Tom &amp; Jerry&nbsp;&lt;3 <b>&gt;</b></p>'', preserveFormatting = Some False,
     ignoreTags = None, wrapLength = None, wrapWords = None\<rparr> = Inr ''Tom &amp; Jerry&nbsp;&lt;3 &gt;'' \<and>
   textify \<lparr>html = ''<p>Tom &amp; Jerry&nbsp;&lt;3 <b>&gt;</b></p>'', preserveFormatting = Some False,
     ignoreTags = Some [''B''], wrapLength = None, wrapWords = None\<rparr> =
     Inr ''Tom &amp; Jerry&nbsp;&lt;3 <b>&gt;</b>''"
proof (intro conjI impI)
  assume a: "preserveFormatting opts = Some False \<and> \<not> positive (wrapWords opts) \<and>
    \<not> positive (wrapLength opts) \<and> list_all wf_token doc \<and> html opts = concat (map render doc)"
  then have "textify opts =
      Inr (strip_tags (case ignoreTags opts of None \<Rightarrow> [] | Some ts \<Rightarrow> ts) (html opts))"
    by (intro textify_strip) simp_all
  then show "textify opts =
        Inr (trim (concat (map render
          (filter (kept (case ignoreTags opts of None \<Rightarrow> [] | Some ts \<Rightarrow> ts)) doc))))"
    using a strip_tags_doc [of doc] by simp
next
  assume a: "preserveFormatting opts = Some False \<and> \<not> positive (wrapWords opts) \<and>
    \<not> positive (wrapLength opts) \<and> \<not> anywhere rx_any_tag (html opts)"
  then have "textify opts =
      Inr (strip_tags (case ignoreTags opts of None \<Rightarrow> [] | Some ts \<Rightarrow> ts) (html opts))"
    by (intro textify_strip) simp_all
  then show "textify opts = Inr (trim (html opts))"
    using a strip_tags_no_tag [of "html opts"] by simp
next
  assume "preserveFormatting opts = Some False \<and> html opts \<noteq> []"
  then show "textify opts =
        wrap_output (wrapWords opts) (wrapLength opts)
          (strip_tags (case ignoreTags opts of None \<Rightarrow> [] | Some ts \<Rightarrow> ts) (html opts))"
    by (simp add: textify_def convert_def)
next
  assume "list_all wf_token doc"
  then show "strip_tags ig (concat (map render doc)) =
        trim (concat (map render (filter (kept ig) doc)))"
    by (rule strip_tags_doc)
next
  assume "list_all wf_any doc"
  then show "strip_tags [] (concat (map render doc)) =
        trim (concat (map render (filter (kept []) doc)))"
    by (rule strip_tags_any_doc)
next
  assume "\<not> anywhere rx_any_tag s"
  then show "strip_tags ig s = trim s" by (rule strip_tags_no_tag)
qed (rule strip_examples)+

theorem strip_mode_removes_tags_only_witness:
  "list_all wf_token
     [Text '' '', Tag False ''p'' '' class=x'', Text ''a &amp; b'', Tag False ''BR'' ''/'',
      Tag False ''Mark'' [], Text ''c'', Tag True ''mark'' [], Tag True ''p'' [], Text '' > ''] \<and>
   textify \<lparr>html = '' <p class=x>a &amp; b<BR/><Mark>c</mark></p> > '', preserveFormatting = Some False,
     ignoreTags = Some [''MARK''], wrapLength = None, wrapWords = Some 0\<rparr> =
     Inr ''a &amp; b<Mark>c</mark> >'' \<and>
   \<not> anywhere rx_any_tag '' 2 > 1 &amp;&amp; 1 < 2 '' \<and>
   textify \<lparr>html = '' 2 > 1 &amp;&amp; 1 < 2 '', preserveFormatting = Some False,
     ignoreTags = Some [''b''], wrapLength = None, wrapWords = None\<rparr> =
     Inr ''2 > 1 &amp;&amp; 1 < 2'' \<and>
   textify \<lparr>html = ''<p>a &amp; b</p> <i>c</i>'', preserveFormatting = Some False,
     ignoreTags = None, wrapLength = None, wrapWords = Some 2\<rparr> = Inr ''a &amp;\<newline>b c'' \<and>
   list_all wf_any [Tag False ''!--'' '' c --'', Text ''a &lt; b'', Tag False ''a_b'' [], Tag True [] []] \<and>
   strip_tags [] ''<!-- c -->a &lt; b<a_b></>'' = ''a &lt; b''"
proof -
  let ?doc = "[Text '' '', Tag False ''p'' '' class=x'', Text ''a &amp; b'', Tag False ''BR'' ''/'',
      Tag False ''Mark'' [], Text ''c'', Tag True ''mark'' [], Tag True ''p'' [], Text '' > '']"
  let ?o1 = "\<lparr>html = '' <p class=x>a &amp; b<BR/><Mark>c</mark></p> > '', preserveFormatting = Some False,
     ignoreTags = Some [''MARK''], wrapLength = None, wrapWords = Some 0\<rparr>"
  let ?o2 = "\<lparr>html = '' 2 > 1 &amp;&amp; 1 < 2 '', preserveFormatting = Some False,
     ignoreTags = Some [''b''], wrapLength = None, wrapWords = None\<rparr>"
  let ?o3 = "\<lparr>html = ''<p>a &amp; b</p> <i>c</i>'', preserveFormatting = Some False,
     ignoreTags = None, wrapLength = None, wrapWords = Some 2\<rparr>"
  have wf: "list_all wf_token ?doc" by code_simp
  have h1: "preserveFormatting ?o1 = Some False" "\<not> positive (wrapWords ?o1)"
    "\<not> positive (wrapLength ?o1)" "html ?o1 = concat (map render ?doc)"
    by (simp_all add: positive_def)
  have k: "trim (concat (map render (filter (kept [''MARK'']) ?doc))) = ''a &amp; b<Mark>c</mark> >''"
    by code_simp
  from strip_mode_removes_tags_only [of ?o1 ?doc] h1 wf
  have "textify ?o1 = Inr (trim (concat (map render
          (filter (kept (case ignoreTags ?o1 of None \<Rightarrow> [] | Some ts \<Rightarrow> ts)) ?doc))))"
    by blast
  then have a: "textify ?o1 = Inr ''a &amp; b<Mark>c</mark> >''" using k by simp
  have nt: "\<not> anywhere rx_any_tag '' 2 > 1 &amp;&amp; 1 < 2 ''" by code_simp
  have h2: "preserveFormatting ?o2 = Some False" "\<not> positive (wrapWords ?o2)"
    "\<not> positive (wrapLength ?o2)" "\<not> anywhere rx_any_tag (html ?o2)"
    using nt by (simp_all add: positive_def)
  have t2: "trim '' 2 > 1 &amp;&amp; 1 < 2 '' = ''2 > 1 &amp;&amp; 1 < 2''" by code_simp
  from strip_mode_removes_tags_only [of ?o2] h2
  have "textify ?o2 = Inr (trim (html ?o2))" by blast
  then have b: "textify ?o2 = Inr ''2 > 1 &amp;&amp; 1 < 2''" using t2 by simp
  have h3: "preserveFormatting ?o3 = Some False" "html ?o3 \<noteq> []" by simp_all
  have w3: "wrap_output (wrapWords ?o3) (wrapLength ?o3)
          (strip_tags (case ignoreTags ?o3 of None \<Rightarrow> [] | Some ts \<Rightarrow> ts) (html ?o3)) =
        Inr ''a &amp;\<newline>b c''"
    by code_simp
  from strip_mode_removes_tags_only [of ?o3] h3
  have "textify ?o3 = wrap_output (wrapWords ?o3) (wrapLength ?o3)
          (strip_tags (case ignoreTags ?o3 of None \<Rightarrow> [] | Some ts \<Rightarrow> ts) (html ?o3))"
    by blast
  then have c: "textify ?o3 = Inr ''a &amp;\<newline>b c''" using w3 by simp
  let ?any = "[Tag False ''!--'' '' c --'', Text ''a &lt; b'', Tag False ''a_b'' [], Tag True [] []]"
  have wa: "list_all wf_any ?any" by code_simp
  have ra: "concat (map render ?any) = ''<!-- c -->a &lt; b<a_b></>''" by simp
  have ka: "trim (concat (map render (filter (kept []) ?any))) = ''a &lt; b''" by code_simp
  from strip_mode_removes_tags_only [of _ ?any] wa
  have "strip_tags [] (concat (map render ?any)) = trim (concat (map render (filter (kept []) ?any)))"
    by blast
  then have d: "strip_tags [] ''<!-- c -->a &lt; b<a_b></>'' = ''a &lt; b''"
    unfolding ra ka .
  from wf a nt b c wa d show ?thesis by (intro conjI)
qed

text \<open>
  The claim as the spec states it, for every input, fails: in \<open>1 < 2 &amp; 3 > 2\<close> the
  pattern takes the text from \<open><\<close> to \<open>>\<close> for a tag, and the entity goes with it; with
  an ignore list that is not empty the name pattern does not match \<open><a_b>\<close>, which is kept
  although \<open>a_b\<close> is not in the list; and a \<open>>\<close> inside an attribute value ends the tag,
  so that the rest of the tag stays in the text.
\<close>

theorem strip_mode_removes_tags_only_counterexample:
  "textify \<lparr>html = ''1 < 2 &amp; 3 > 2'', preserveFormatting = Some False,
     ignoreTags = None, wrapLength = None, wrapWords = None\<rparr> = Inr ''1  2'' \<and>
   textify \<lparr>html = ''<a_b>x</a_b>'', preserveFormatting = Some False,
     ignoreTags = Some [''b''], wrapLength = None, wrapWords = None\<rparr> = Inr ''<a_b>x</a_b>'' \<and>
   textify \<lparr>html = ''<a title=\">\">x</a>'', preserveFormatting = Some False,
     ignoreTags = None, wrapLength = None, wrapWords = None\<rparr> = Inr ''\">x''"
  by code_simp

section \<open>The ignore list in the two modes\<close>

lemma pass_strip_non_lowercase_doc:
  assumes "list_all (\<lambda>e. toLowerCase e \<noteq> e) ig" "list_all wf_named toks"
  shows "pass_strip ig (concat (map render toks)) = pass_strip [] (concat (map render toks))"
proof -
  have "stays ig = stays []"
  proof (rule ext)
    fix t show "stays ig t = stays [] t"
      using non_lowercase_never_member [OF assms(1)] by (cases t) simp_all
  qed
  then show ?thesis using pass_strip_doc [OF assms(2)] by simp
qed

lemma case_examples:
  "preserveFormat ''<p><b>x</b> and <B>y</B><BR>z</p>'' [''B'', ''BR''] = ''**x** and **y**\<newline>z''"
  "preserveFormat ''<p><b>x</b> and <B>y</B><BR>z</p>'' [''b'', ''br''] = ''<b>x</b> and <B>y</B><BR>z''"
  "strip_tags [''B'', ''BR''] ''<p><b>x</b> and <B>y</B><BR>z</p>'' = ''<b>x</b> and <B>y</B><BR>z''"
  by code_simp+

text \<open>
  Claim C10, as amended. \<open>preserveFormat\<close> compares the entries of the ignore list as they
  are written. Every membership check it makes is for a lowercase string (a lowercase
  literal, or the lowercased name of a tag of the document), so an entry that is not
  lowercase, such as \<open>BR\<close> or \<open>B\<close>, is never found: the result depends on the list only
  through its lowercase entries and through its being empty or not, and adding such an
  entry to a list that is not empty changes nothing. A list of such entries only acts as
  the empty list in every pass before the final strip; in the final strip, not being
  empty, it selects the pattern that asks for a tag name, and removes every match of it:
  on a text of pieces and tags with names of letters and digits that is what the empty
  list removes, but what has no such name (a comment) stays. In strip mode \<open>textify\<close>
  lowercases the entries before the comparison: the result for a list is the result for
  the lowercased list, and a tag is kept exactly when its lowercased name is the lowercase
  form of an entry.
\<close>

theorem ignoreTags_case_sensitivity:
  "(list_all (\<lambda>e. toLowerCase e \<noteq> e) ig \<longrightarrow> (\<forall>x. toLowerCase x \<notin> set ig)) \<and>
   (same_lowercase_entries ig ig' \<longrightarrow> preserveFormat h ig = preserveFormat h ig') \<and>
   (toLowerCase e \<noteq> e \<and> ig \<noteq> [] \<longrightarrow> preserveFormat h (e # ig) = preserveFormat h ig) \<and>
   (list_all (\<lambda>e. toLowerCase e \<noteq> e) ig \<longrightarrow>
      pass_tables ig (pass_blockquote ig (pass_ul ig (pass_ol ig (pass_links ig
        (pass_italic ig (pass_bold ig (pass_headings ig (pass_br ig s)))))))) =
      pass_tables [] (pass_blockquote [] (pass_ul [] (pass_ol [] (pass_links []
        (pass_italic [] (pass_bold [] (pass_headings [] (pass_br [] s))))))))) \<and>
   (list_all (\<lambda>e. toLowerCase e \<noteq> e) ig \<and> ig \<noteq> [] \<longrightarrow>
      pass_strip ig s = replace_with rx_named_tag (\<lambda>match tag. []) s) \<and>
   (list_all (\<lambda>e. toLowerCase e \<noteq> e) ig \<and> list_all wf_named toks \<longrightarrow>
      pass_strip ig (concat (map render toks)) = pass_strip [] (concat (map render toks))) \<and>
   strip_tags ig h = strip_tags (map toLowerCase ig) h \<and>
   (list_all wf_token doc \<longrightarrow>
      strip_tags ig (concat (map render doc)) = trim (concat (map render (filter (kept ig) doc)))) \<and>
   preserveFormat ''<p><b>x</b> and <B>y</B><BR>z</p>'' [''B'', ''BR''] = ''**x** and **y**\<newline>z'' \<and>
   preserveFormat ''<p><b>x</b> and <B>y</B><BR>z</p>'' [''b'', ''br''] = ''<b>x</b> and <B>y</B><BR>z'' \<and>
   strip_tags [''B'', ''BR''] ''<p><b>x</b> and <B>y</B><BR>z</p>'' = ''<b>x</b> and <B>y</B><BR>z''"
proof (intro conjI impI allI)
  fix x
  assume "list_all (\<lambda>e. toLowerCase e \<noteq> e) ig"
  then show "toLowerCase x \<notin> set ig" by (rule non_lowercase_never_member)
next
  assume "same_lowercase_entries ig ig'"
  then show "preserveFormat h ig = preserveFormat h ig'" by (rule preserveFormat_same_lowercase)
next
  assume a: "toLowerCase e \<noteq> e \<and> ig \<noteq> []"
  then have "same_lowercase_entries (e # ig) ig"
    by (auto simp add: same_lowercase_entries_def)
  then show "preserveFormat h (e # ig) = preserveFormat h ig" by (rule preserveFormat_same_lowercase)
next
  assume "list_all (\<lambda>e. toLowerCase e \<noteq> e) ig"
  then show "pass_tables ig (pass_blockquote ig (pass_ul ig (pass_ol ig (pass_links ig
        (pass_italic ig (pass_bold ig (pass_headings ig (pass_br ig s)))))))) =
      pass_tables [] (pass_blockquote [] (pass_ul [] (pass_ol [] (pass_links []
        (pass_italic [] (pass_bold [] (pass_headings [] (pass_br [] s))))))))"
    by (rule before_strip_non_lowercase)
next
  assume "list_all (\<lambda>e. toLowerCase e \<noteq> e) ig \<and> ig \<noteq> []"
  then show "pass_strip ig s = replace_with rx_named_tag (\<lambda>match tag. []) s"
    using pass_strip_non_lowercase [of ig s] by blast
next
  assume "list_all (\<lambda>e. toLowerCase e \<noteq> e) ig \<and> list_all wf_named toks"
  then show "pass_strip ig (concat (map render toks)) = pass_strip [] (concat (map render toks))"
    using pass_strip_non_lowercase_doc [of ig toks] by blast
next
  show "strip_tags ig h = strip_tags (map toLowerCase ig) h" by (rule strip_tags_lowercases)
next
  assume "list_all wf_token doc"
  then show "strip_tags ig (concat (map render doc)) = trim (concat (map render (filter (kept ig) doc)))"
    by (rule strip_tags_doc)
qed (rule case_examples)+

theorem ignoreTags_case_sensitivity_witness:
  "list_all (\<lambda>e. toLowerCase e \<noteq> e) [''BR'', ''Li''] \<and>
   toLowerCase ''BR'' \<notin> set [''BR'', ''Li''] \<and>
   toLowerCase ''Br'' \<noteq> ''Br'' \<and>
   preserveFormat ''a<br>b<p>c</p>'' [''Br'', ''p''] = preserveFormat ''a<br>b<p>c</p>'' [''p''] \<and>
   preserveFormat ''a<br>b<p>c</p>'' [''p''] = ''a\<newline>b<p>c</p>'' \<and>
   pass_tables [''BR'', ''Li''] (pass_blockquote [''BR'', ''Li''] (pass_ul [''BR'', ''Li'']
     (pass_ol [''BR'', ''Li''] (pass_links [''BR'', ''Li''] (pass_italic [''BR'', ''Li'']
       (pass_bold [''BR'', ''Li''] (pass_headings [''BR'', ''Li'']
         (pass_br [''BR'', ''Li''] ''<ol><Li>a</Li></ol><BR><div>b</div>'')))))))) =
     ''1. a\<newline>\<newline><div>b</div>'' \<and>
   list_all wf_named [Tag False ''BR'' [], Text ''x'', Tag False ''Li'' '' id=1'', Text ''y''] \<and>
   pass_strip [''BR'', ''Li''] ''<BR>x<Li id=1>y'' = ''xy'' \<and>
   list_all wf_token [Tag False ''BR'' [], Text ''x'', Tag False ''Li'' '' id=1'', Text ''y'', Tag False ''p'' []] \<and>
   strip_tags [''BR'', ''Li''] ''<BR>x<Li id=1>y<p>'' = ''<BR>x<Li id=1>y''"
proof -
  let ?ig = "[''BR'', ''Li'']"
  let ?toks = "[Tag False ''BR'' [], Text ''x'', Tag False ''Li'' '' id=1'', Text ''y'']"
  let ?doc = "[Tag False ''BR'' [], Text ''x'', Tag False ''Li'' '' id=1'', Text ''y'', Tag False ''p'' []]"
  have n: "list_all (\<lambda>e. toLowerCase e \<noteq> e) ?ig" by code_simp
  have l: "toLowerCase ''Br'' \<noteq> ''Br''" by code_simp
  have w1: "list_all wf_named ?toks" by code_simp
  have w2: "list_all wf_token ?doc" by code_simp
  from ignoreTags_case_sensitivity [of ?ig] n
  have a: "toLowerCase ''BR'' \<notin> set ?ig" by blast
  from l have "toLowerCase ''Br'' \<noteq> ''Br'' \<and> [''p''] \<noteq> []" by simp
  with ignoreTags_case_sensitivity [of "[''p'']" "[''p'']" "''a<br>b<p>c</p>''" "''Br''"]
  have b: "preserveFormat ''a<br>b<p>c</p>'' [''Br'', ''p''] = preserveFormat ''a<br>b<p>c</p>'' [''p'']"
    by blast
  have b': "preserveFormat ''a<br>b<p>c</p>'' [''p''] = ''a\<newline>b<p>c</p>''" by code_simp
  have c': "pass_tables [] (pass_blockquote [] (pass_ul [] (pass_ol [] (pass_links []
        (pass_italic [] (pass_bold [] (pass_headings []
          (pass_br [] ''<ol><Li>a</Li></ol><BR><div>b</div>'')))))))) =
      ''1. a\<newline>\<newline><div>b</div>''"
    by code_simp
  from ignoreTags_case_sensitivity [of ?ig _ _ _ "''<ol><Li>a</Li></ol><BR><div>b</div>''"] n
  have c: "pass_tables ?ig (pass_blockquote ?ig (pass_ul ?ig (pass_ol ?ig (pass_links ?ig
        (pass_italic ?ig (pass_bold ?ig (pass_headings ?ig
          (pass_br ?ig ''<ol><Li>a</Li></ol><BR><div>b</div>'')))))))) =
      ''1. a\<newline>\<newline><div>b</div>''"
    unfolding c' [symmetric] by blast
  have r1: "concat (map render ?toks) = ''<BR>x<Li id=1>y''" by simp
  have s1: "pass_strip [] ''<BR>x<Li id=1>y'' = ''xy''" by code_simp
  from ignoreTags_case_sensitivity [of ?ig _ _ _ _ ?toks] n w1
  have d: "pass_strip ?ig (concat (map render ?toks)) = pass_strip [] (concat (map render ?toks))"
    by blast
  have r2: "concat (map render ?doc) = ''<BR>x<Li id=1>y<p>''" by simp
  have k2: "trim (concat (map render (filter (kept ?ig) ?doc))) = ''<BR>x<Li id=1>y''" by code_simp
  from ignoreTags_case_sensitivity [of ?ig _ _ _ _ _ ?doc] w2
  have e: "strip_tags ?ig (concat (map render ?doc)) = trim (concat (map render (filter (kept ?ig) ?doc)))"
    by blast
  show ?thesis
    using n a l b b' c w1 d [unfolded r1 s1] w2 e [unfolded r2 k2]
    by (intro conjI)
qed

text \<open>
  The claim as the spec states it fails: the entry \<open>BR\<close> is never found, and yet it has a
  preserving effect. With \<open>BR\<close> the ignore list is not empty, and the final strip leaves the
  comment that it removes for the empty list.
\<close>

theorem ignoreTags_case_sensitivity_counterexample:
  "preserveFormat ''<!-- c -->x'' [''BR''] = ''<!-- c -->x'' \<and>
   preserveFormat ''<!-- c -->x'' [] = ''x''"
  by code_simp

section \<open>Preserved tags and the later passes\<close>

text \<open>
  Claim C1 asks that a tag named in the ignore list comes out of \<open>preserveFormat\<close> exactly
  as it went in. The code does not keep to that in two places. The entity decoder runs
  over the whole text after the final strip, preserved tags included, so an entity inside
  an attribute of a preserved tag is decoded. And the blockquote pass converts the \<open><br>\<close>
  tags of a block without asking whether \<open>br\<close> is in the ignore list, as the global
  \<open><br>\<close> pass does. In strip mode the tag is kept as written.
\<close>

theorem ignored_tag_not_kept_intact:
  "preserveFormat ''<a href=\"?a=1&amp;b=2\">x</a>'' [''a''] = ''<a href=\"?a=1&b=2\">x</a>'' \<and>
   preserveFormat ''<blockquote>a<br>b</blockquote>'' [''br''] = ''> a\<newline>> b'' \<and>
   strip_tags [''a''] ''<a href=\"?a=1&amp;b=2\">x</a>'' = ''<a href=\"?a=1&amp;b=2\">x</a>''"
  by code_simp

section \<open>The repository's tests on the model\<close>

text \<open>
  The expectations of the repository's own test file and of its README, evaluated on the
  model.
\<close>

lemma repository_tests_plain:
  "preserveFormat [] [] = []"
  "preserveFormat ''<p>First paragraph</p><br>Second line'' [] = ''First paragraph\<newline>\<newline>Second line''"
  "preserveFormat ''<h1>Heading 1</h1><h2>Heading 2</h2><div>padding</div>'' [] =
     ''Heading 1\<newline>\<newline>Heading 2\<newline>\<newline>padding''"
  "preserveFormat ''<ul><li>Item 1</li><li>Item 2</li></ul><div>padding</div>'' [] =
     ''- Item 1\<newline>- Item 2\<newline>padding''"
  "preserveFormat ''<a href=\"https://example.com\">Click here</a>'' [] =
     ''[Click here](https://example.com)''"
  "preserveFormat ''<b>Bold</b> and <i>Italic</i>'' [] = ''**Bold** and *Italic*''"
  "preserveFormat ''<p>Line&nbsp;1 &amp; test</p><p>Line 2</p>'' [] = ''Line 1 & test\<newline>\<newline>Line 2''"
  "preserveFormat ''<div>Content <span>inside</span></div>'' [] = ''Content inside''"
  "preserveFormat ''<table><tr><td>A1</td><td>B1</td></tr></table>'' [] = [CHR ''A'', CHR ''1'', CHR 0x09, CHR ''B'', CHR ''1'']"
  by code_simp+

lemma repository_tests_ignore:
  "preserveFormat ''<h1>Heading</h1><p>Paragraph</p>'' [''h1'', ''p''] = ''<h1>Heading</h1><p>Paragraph</p>''"
  "preserveFormat ''<a href=\"https://example.com\">Click here</a>'' [''a''] =
     ''<a href=\"https://example.com\">Click here</a>''"
  "preserveFormat ''<b>Bold</b> and <i>Italic</i>'' [''b'', ''i''] = ''<b>Bold</b> and <i>Italic</i>''"
  "preserveFormat
     ''\<newline>    <table>\<newline>      <tr><td>A1</td><td>B1</td></tr>\<newline>      <tr><td>A2</td><td>B2</td></tr>\<newline>    </table>''
     [''table'', ''tr'', ''td''] =
     ''<table><tr><td>A1</td><td>B1</td></tr><tr><td>A2</td><td>B2</td></tr></table>''"
  by code_simp+

lemma readme_examples:
  "textify \<lparr>html = ''<p>Hello <b>World</b></p>'', preserveFormatting = None, ignoreTags = None,
     wrapLength = None, wrapWords = None\<rparr> = Inr ''Hello **World**''"
  "textify \<lparr>html = ''<p>Paragraph <mark>highlighted</mark></p>'', preserveFormatting = Some False,
     ignoreTags = Some [''mark''], wrapLength = None, wrapWords = None\<rparr> =
     Inr ''Paragraph <mark>highlighted</mark>''"
  "textify \<lparr>html = ''<p>This is a test sentence for wrapping.</p>'', preserveFormatting = Some False,
     ignoreTags = None, wrapLength = Some 10, wrapWords = None\<rparr> =
     Inr ''This is a\<newline>test\<newline>sentence\<newline>for\<newline>wrapping.''"
  by code_simp+

end
